theory Spec2Isabelle
  imports Main "HOL-Library.Word" "HOL-Library.Multiset" "HOL-Library.Sublist"
begin

section \<open>Lexer (src/ast/c/ast.c and src/ast-wasm/c/wasm_ast.c, identical text)\<close>

subsection \<open>Tokens\<close>

datatype TokenType =
    TOKEN_EOF
  | TOKEN_VAR | TOKEN_IF | TOKEN_ELSE | TOKEN_WHILE
  | TOKEN_LPAREN | TOKEN_RPAREN | TOKEN_LBRACE | TOKEN_RBRACE | TOKEN_SEMICOLON
  | TOKEN_PLUS | TOKEN_MINUS | TOKEN_MULTIPLY | TOKEN_DIVIDE
  | TOKEN_GREATER | TOKEN_LESS | TOKEN_EQUAL
  | TOKEN_NUMBER | TOKEN_STRING
  | TOKEN_IDENTIFIER

text \<open>
  The field \<open>value\<close> of a token is a \<open>char*\<close> that \<open>add_token\<close> stores as it gets it,
  without copying the characters. \<open>Some text\<close> is a pointer to a live string: a buffer that
  \<open>tokenize\<close> obtained from \<open>malloc\<close> and filled, or a string literal. \<open>None\<close> is a pointer
  to an object whose lifetime has ended: the array \<open>char str[2]\<close> that the Searching case
  declares inside the block of a separator or an operator. That block is left before the
  next iteration, long before any reader of the token array runs, so the characters behind
  such a pointer are indeterminate for every reader.
\<close>

record Token =
  type :: TokenType
  "value" :: "string option"
  line :: int
  column :: int

datatype TokenizeState = STATE_SEARCHING | STATE_STRING | STATE_NUMBER | STATE_IDENTIFIER

text \<open>
  The character tests compare a \<open>char\<close> with character literals. Bytes above 127 fail
  every range test whether \<open>char\<close> is signed or unsigned, so the byte value as a
  natural number decides each test.
\<close>

definition is_digit :: "char \<Rightarrow> bool" where
  "is_digit c \<longleftrightarrow>
     (of_char (CHR ''0'') :: nat) \<le> of_char c \<and> (of_char c :: nat) \<le> of_char (CHR ''9'')"

definition is_alpha :: "char \<Rightarrow> bool" where
  "is_alpha c \<longleftrightarrow>
     ((of_char (CHR ''a'') :: nat) \<le> of_char c \<and> (of_char c :: nat) \<le> of_char (CHR ''z''))
   \<or> ((of_char (CHR ''A'') :: nat) \<le> of_char c \<and> (of_char c :: nat) \<le> of_char (CHR ''Z''))
   \<or> c = CHR ''_''"

definition is_whitespace :: "char \<Rightarrow> bool" where
  "is_whitespace c \<longleftrightarrow> c = CHR '' '' \<or> c = CHR 0x0A \<or> c = CHR 0x09"

text \<open>\<open>get_location_from_index\<close>: the 1-based line and column of the character at an index.\<close>

definition location_step :: "char \<Rightarrow> int \<times> int \<Rightarrow> int \<times> int" where
  "location_step c p = (if c = CHR 0x0A then (fst p + 1, 1) else (fst p, snd p + 1))"

definition get_location_from_index :: "nat \<Rightarrow> string \<Rightarrow> int \<times> int" where
  "get_location_from_index index input = fold location_step (take index input) (1, 1)"

text \<open>\<open>add_token\<close> appends to the growable token array; the capacity doubling is not observable.\<close>

definition add_token ::
  "Token list \<Rightarrow> TokenType \<Rightarrow> string option \<Rightarrow> int \<Rightarrow> int \<Rightarrow> Token list" where
  "add_token arr ty v ln col = arr @ [\<lparr>type = ty, value = v, line = ln, column = col\<rparr>]"

definition get_keyword_type :: "string \<Rightarrow> TokenType" where
  "get_keyword_type str =
     (if str = ''var'' then TOKEN_VAR
      else if str = ''if'' then TOKEN_IF
      else if str = ''else'' then TOKEN_ELSE
      else if str = ''while'' then TOKEN_WHILE
      else TOKEN_IDENTIFIER)"

subsection \<open>The scanning loop of \<open>tokenize\<close>\<close>

text \<open>
  The local variables of \<open>tokenize\<close>. \<open>pos\<close> is the loop index \<open>i\<close>, \<open>toks\<close> the token
  array \<open>tokens\<close>. The flag \<open>no_dynamic_next\<close> is declared inside the loop body and is 0 at
  the start of every iteration, so it is a \<open>let\<close> of the step and not a field.
\<close>

record lexer =
  state :: TokenizeState
  state_start :: nat
  state_start_line :: int
  state_start_column :: int
  current_line :: int
  current_column :: int
  pos :: nat
  toks :: "Token list"

datatype lex_error = UnexpectedCharacter char

text \<open>The input is a C string: its length is the number of characters before the first NUL.\<close>

definition input_len :: "string \<Rightarrow> nat" where
  "input_len input = length (takeWhile (\<lambda>c. c \<noteq> CHR 0x00) input)"

definition separator_type :: "char \<Rightarrow> TokenType" where
  "separator_type c =
     (if c = CHR ''('' then TOKEN_LPAREN
      else if c = CHR '')'' then TOKEN_RPAREN
      else if c = CHR '';'' then TOKEN_SEMICOLON
      else if c = CHR ''{'' then TOKEN_LBRACE
      else TOKEN_RBRACE)"

definition operator_type :: "char \<Rightarrow> TokenType" where
  "operator_type c =
     (if c = CHR ''+'' then TOKEN_PLUS
      else if c = CHR ''-'' then TOKEN_MINUS
      else if c = CHR ''*'' then TOKEN_MULTIPLY
      else if c = CHR ''/'' then TOKEN_DIVIDE
      else if c = CHR ''>'' then TOKEN_GREATER
      else if c = CHR ''<'' then TOKEN_LESS
      else TOKEN_EQUAL)"

text \<open>
  \<open>char str[2] = {c, 0}\<close> followed by \<open>add_token(&tokens, type, str, ...)\<close>: the pointer
  handed to \<open>add_token\<close> designates an array local to the enclosing block, dead when the
  block is left.
\<close>

definition block_local :: "string \<Rightarrow> string option" where
  "block_local str = None"

text \<open>The tail of the Searching case: update the running position, then \<open>i++\<close>.\<close>

definition update_position :: "char \<Rightarrow> lexer \<Rightarrow> lexer" where
  "update_position c s =
     (if c = CHR 0x0A
      then s\<lparr>current_line := current_line s + 1, current_column := 1, pos := pos s + 1\<rparr>
      else s\<lparr>current_column := current_column s + 1, pos := pos s + 1\<rparr>)"

definition searching_step :: "char \<Rightarrow> bool \<Rightarrow> lexer \<Rightarrow> lex_error + lexer" where
  "searching_step c no_dynamic_next s0 =
     (let s = s0\<lparr>state_start := pos s0\<rparr> in
      if c = CHR 0x22 then
        (if no_dynamic_next then Inl (UnexpectedCharacter c)
         else Inr (update_position c
                (s\<lparr>state_start_line := current_line s,
                   state_start_column := current_column s,
                   state := STATE_STRING\<rparr>)))
      else if c = CHR ''('' \<or> c = CHR '')'' \<or> c = CHR '';'' \<or> c = CHR ''{'' \<or> c = CHR ''}'' then
        Inr (update_position c
               (s\<lparr>toks := add_token (toks s) (separator_type c) (block_local [c])
                                (current_line s) (current_column s),
                  state := STATE_SEARCHING\<rparr>))
      else if c = CHR ''+'' \<or> c = CHR ''-'' \<or> c = CHR ''*'' \<or> c = CHR ''/'' \<or>
              c = CHR ''>'' \<or> c = CHR ''<'' \<or> c = CHR ''='' then
        Inr (update_position c
               (s\<lparr>toks := add_token (toks s) (operator_type c) (block_local [c])
                                (current_line s) (current_column s),
                  state := STATE_SEARCHING\<rparr>))
      else if is_digit c then
        (if no_dynamic_next then Inl (UnexpectedCharacter c)
         else Inr (update_position c
                (s\<lparr>state_start_line := current_line s,
                   state_start_column := current_column s,
                   state := STATE_NUMBER\<rparr>)))
      else if is_alpha c then
        (if no_dynamic_next then Inl (UnexpectedCharacter c)
         else Inr (update_position c
                (s\<lparr>state_start_line := current_line s,
                   state_start_column := current_column s,
                   state := STATE_IDENTIFIER\<rparr>)))
      else if is_whitespace c then Inr (update_position c s)
      else Inl (UnexpectedCharacter c))"

text \<open>The characters \<open>input[state_start .. i - 1]\<close> copied into a fresh buffer.\<close>

definition token_text :: "string \<Rightarrow> lexer \<Rightarrow> string" where
  "token_text input s = take (pos s - state_start s) (drop (state_start s) input)"

definition identifier_step :: "string \<Rightarrow> char \<Rightarrow> lexer \<Rightarrow> lexer" where
  "identifier_step input c s =
     (if \<not> is_alpha c
      then (let token_value = token_text input s in
            s\<lparr>toks := add_token (toks s) (get_keyword_type token_value) (Some token_value)
                         (state_start_line s) (state_start_column s),
              state := STATE_SEARCHING\<rparr>)
      else s\<lparr>pos := pos s + 1\<rparr>)"

definition string_step :: "string \<Rightarrow> char \<Rightarrow> lexer \<Rightarrow> lexer" where
  "string_step input c s =
     (if c = CHR 0x22
      then (let token_value = token_text input s in
            s\<lparr>toks := add_token (toks s) TOKEN_STRING (Some token_value)
                         (state_start_line s) (state_start_column s),
              state := STATE_SEARCHING,
              pos := pos s + 1\<rparr>)
      else s\<lparr>pos := pos s + 1\<rparr>)"

definition number_step :: "string \<Rightarrow> char \<Rightarrow> lexer \<Rightarrow> lexer" where
  "number_step input c s =
     (if \<not> is_digit c
      then (let token_value = token_text input s in
            s\<lparr>toks := add_token (toks s) TOKEN_NUMBER (Some token_value)
                         (state_start_line s) (state_start_column s),
              state := STATE_SEARCHING\<rparr>)
      else s\<lparr>pos := pos s + 1\<rparr>)"

text \<open>One iteration of the \<open>while (i < input_len)\<close> loop.\<close>

definition tokenize_step :: "string \<Rightarrow> lexer \<Rightarrow> lex_error + lexer" where
  "tokenize_step input s =
     (let c = input ! pos s; no_dynamic_next = False in
      case state s of
        STATE_SEARCHING \<Rightarrow> searching_step c no_dynamic_next s
      | STATE_IDENTIFIER \<Rightarrow> Inr (identifier_step input c s)
      | STATE_STRING \<Rightarrow> Inr (string_step input c s)
      | STATE_NUMBER \<Rightarrow> Inr (number_step input c s))"

definition lexer_measure :: "string \<Rightarrow> lexer \<Rightarrow> nat" where
  "lexer_measure input s =
     2 * (input_len input - pos s) + (if state s = STATE_SEARCHING then 0 else 1)"

lemma update_position_pos [simp]: "pos (update_position c s) = pos s + 1"
  by (simp add: update_position_def)

lemma update_position_state [simp]: "state (update_position c s) = state s"
  by (simp add: update_position_def)

lemma update_position_toks [simp]: "toks (update_position c s) = toks s"
  by (simp add: update_position_def)

lemma searching_step_pos:
  "searching_step c b s = Inr s' \<Longrightarrow> pos s' = pos s + 1"
  unfolding searching_step_def Let_def
  by (clarsimp split: if_splits)

lemma tokenize_step_measure:
  assumes "pos s < input_len input" and "tokenize_step input s = Inr s'"
  shows "lexer_measure input s' < lexer_measure input s"
proof (cases "state s")
  case STATE_SEARCHING
  with assms have "pos s' = pos s + 1"
    by (auto simp: tokenize_step_def dest: searching_step_pos)
  with assms STATE_SEARCHING show ?thesis
    by (auto simp: lexer_measure_def)
next
  case STATE_STRING
  with assms show ?thesis
    by (auto simp: tokenize_step_def string_step_def lexer_measure_def Let_def split: if_splits)
next
  case STATE_NUMBER
  with assms show ?thesis
    by (auto simp: tokenize_step_def number_step_def lexer_measure_def Let_def split: if_splits)
next
  case STATE_IDENTIFIER
  with assms show ?thesis
    by (auto simp: tokenize_step_def identifier_step_def lexer_measure_def Let_def
             split: if_splits)
qed

function tokenize_loop :: "string \<Rightarrow> lexer \<Rightarrow> lex_error + lexer" where
  "tokenize_loop input s =
     (if pos s < input_len input
      then (case tokenize_step input s of
              Inl e \<Rightarrow> Inl e
            | Inr s' \<Rightarrow> tokenize_loop input s')
      else Inr s)"
  by pat_completeness auto
termination
  by (relation "measure (\<lambda>(input, s). lexer_measure input s)")
     (simp_all add: tokenize_step_measure)

declare tokenize_loop.simps [simp del]

definition initial_lexer :: lexer where
  "initial_lexer =
     \<lparr>state = STATE_SEARCHING, state_start = 0,
      state_start_line = 1, state_start_column = 1,
      current_line = 1, current_column = 1, pos = 0, toks = []\<rparr>"

definition tokenize :: "string \<Rightarrow> lex_error + Token list" where
  "tokenize input =
     (case tokenize_loop input initial_lexer of
        Inl e \<Rightarrow> Inl e
      | Inr s \<Rightarrow> Inr (add_token (toks s) TOKEN_EOF (Some ''EOF'') (current_line s) (current_column s)))"

text \<open>
  The same loop with an iteration budget: \<open>None\<close> when the budget is used up before the
  loop condition fails. It serves to state how many iterations the loop can take.
\<close>

primrec run_fuel :: "nat \<Rightarrow> string \<Rightarrow> lexer \<Rightarrow> (lex_error + lexer) option" where
  "run_fuel 0 input s = (if pos s < input_len input then None else Some (Inr s))"
| "run_fuel (Suc n) input s =
     (if pos s < input_len input
      then (case tokenize_step input s of
              Inl e \<Rightarrow> Some (Inl e)
            | Inr s' \<Rightarrow> run_fuel n input s')
      else Some (Inr s))"

text \<open>The characters for which the Searching case has a branch other than the final \<open>else\<close>.\<close>

definition matches_lexical_rule :: "char \<Rightarrow> bool" where
  "matches_lexical_rule c \<longleftrightarrow>
     c = CHR 0x22
   \<or> (c = CHR ''('' \<or> c = CHR '')'' \<or> c = CHR '';'' \<or> c = CHR ''{'' \<or> c = CHR ''}'')
   \<or> (c = CHR ''+'' \<or> c = CHR ''-'' \<or> c = CHR ''*'' \<or> c = CHR ''/'' \<or>
       c = CHR ''>'' \<or> c = CHR ''<'' \<or> c = CHR ''='')
   \<or> is_digit c \<or> is_alpha c \<or> is_whitespace c"


section \<open>Properties of the lexer\<close>

lemma input_len_le: "input_len input \<le> length input"
  by (simp add: input_len_def length_takeWhile_le)

lemma get_keyword_type_not_EOF [simp]: "get_keyword_type str \<noteq> TOKEN_EOF"
  by (simp add: get_keyword_type_def)

lemma separator_type_not_EOF [simp]: "separator_type c \<noteq> TOKEN_EOF"
  by (simp add: separator_type_def)

lemma operator_type_not_EOF [simp]: "operator_type c \<noteq> TOKEN_EOF"
  by (simp add: operator_type_def)

definition no_EOF :: "Token list \<Rightarrow> bool" where
  "no_EOF ts \<longleftrightarrow> list_all (\<lambda>t. type t \<noteq> TOKEN_EOF) ts"

lemma no_EOF_add_token [simp]:
  "no_EOF (add_token ts ty v ln col) \<longleftrightarrow> no_EOF ts \<and> ty \<noteq> TOKEN_EOF"
  by (simp add: no_EOF_def add_token_def)

lemma searching_step_no_EOF:
  "searching_step c b s = Inr s' \<Longrightarrow> no_EOF (toks s) \<Longrightarrow> no_EOF (toks s')"
  unfolding searching_step_def Let_def
  by (clarsimp split: if_splits)

lemma tokenize_step_no_EOF:
  "tokenize_step input s = Inr s' \<Longrightarrow> no_EOF (toks s) \<Longrightarrow> no_EOF (toks s')"
  by (cases "state s")
     (auto simp: tokenize_step_def identifier_step_def string_step_def number_step_def Let_def
           dest: searching_step_no_EOF split: if_splits)

lemma tokenize_loop_no_EOF:
  "tokenize_loop input s = Inr s' \<Longrightarrow> no_EOF (toks s) \<Longrightarrow> no_EOF (toks s')"
proof (induction input s rule: tokenize_loop.induct)
  case (1 input s)
  show ?case
  proof (cases "pos s < input_len input")
    case False
    with "1.prems" show ?thesis by (simp add: tokenize_loop.simps)
  next
    case True
    with "1.prems"(1) obtain s1 where step: "tokenize_step input s = Inr s1"
      and rest: "tokenize_loop input s1 = Inr s'"
      by (subst (asm) tokenize_loop.simps) (auto split: sum.splits)
    from step "1.prems"(2) have "no_EOF (toks s1)" by (rule tokenize_step_no_EOF)
    with "1.IH" True step rest show ?thesis by simp
  qed
qed

text \<open>
  Claim C6. For every input on which \<open>tokenize\<close> returns a token sequence, the sequence is
  not empty, its final element is the EOF token, no earlier element is an EOF token, and
  exactly one element has type \<open>TOKEN_EOF\<close>.
\<close>

theorem tokenize_single_EOF:
  assumes "tokenize input = Inr ts"
  shows "ts \<noteq> [] \<and> type (last ts) = TOKEN_EOF
       \<and> (\<forall>t \<in> set (butlast ts). type t \<noteq> TOKEN_EOF)
       \<and> length (filter (\<lambda>t. type t = TOKEN_EOF) ts) = 1"
proof -
  from assms obtain s where loop: "tokenize_loop input initial_lexer = Inr s"
    and ts: "ts = add_token (toks s) TOKEN_EOF (Some ''EOF'') (current_line s) (current_column s)"
    by (auto simp: tokenize_def split: sum.splits)
  have "no_EOF (toks initial_lexer)" by (simp add: initial_lexer_def no_EOF_def)
  with loop have inv: "no_EOF (toks s)" by (rule tokenize_loop_no_EOF)
  then have "filter (\<lambda>t. type t = TOKEN_EOF) (toks s) = []"
    by (simp add: no_EOF_def list_all_iff filter_empty_conv)
  with inv show ?thesis
    by (simp add: ts add_token_def no_EOF_def list_all_iff)
qed

theorem tokenize_single_EOF_witness:
  "tokenize ''x=1;'' = Inr
     [\<lparr>type = TOKEN_IDENTIFIER, value = Some ''x'', line = 1, column = 1\<rparr>,
      \<lparr>type = TOKEN_EQUAL, value = None, line = 1, column = 2\<rparr>,
      \<lparr>type = TOKEN_NUMBER, value = Some ''1'', line = 1, column = 3\<rparr>,
      \<lparr>type = TOKEN_SEMICOLON, value = None, line = 1, column = 4\<rparr>,
      \<lparr>type = TOKEN_EOF, value = Some ''EOF'', line = 1, column = 5\<rparr>]
   \<and> length (filter (\<lambda>t. type t = TOKEN_EOF) (projr (tokenize ''x=1;''))) = 1"
proof -
  have ev: "tokenize ''x=1;'' = Inr
     [\<lparr>type = TOKEN_IDENTIFIER, value = Some ''x'', line = 1, column = 1\<rparr>,
      \<lparr>type = TOKEN_EQUAL, value = None, line = 1, column = 2\<rparr>,
      \<lparr>type = TOKEN_NUMBER, value = Some ''1'', line = 1, column = 3\<rparr>,
      \<lparr>type = TOKEN_SEMICOLON, value = None, line = 1, column = 4\<rparr>,
      \<lparr>type = TOKEN_EOF, value = Some ''EOF'', line = 1, column = 5\<rparr>]"
    by code_simp
  from tokenize_single_EOF [OF ev] ev show ?thesis by simp
qed

text \<open>
  Claim C1. The claim expects \<open>[VAR, IDENTIFIER(x), EOF]\<close> with \<open>x\<close> at line 1, column 5.
  The scanning loop ends at the end of the input while still in the Identifier state and
  nothing flushes the pending token: the tokens of \<open>var x\<close> are \<open>VAR\<close> and \<open>EOF\<close> only.
\<close>

theorem tokenize_var_x:
  "tokenize ''var x'' =
     Inr [\<lparr>type = TOKEN_VAR, value = Some ''var'', line = 1, column = 1\<rparr>,
          \<lparr>type = TOKEN_EOF, value = Some ''EOF'', line = 1, column = 4\<rparr>]"
  by code_simp

text \<open>
  Claim C2. The running column is advanced in the Searching state only; the characters
  consumed in the Identifier, Number and String states leave it unchanged. In \<open>ab cd \<close>
  the token \<open>cd\<close> starts at index 3, which \<open>get_location_from_index\<close> places at
  line 1, column 4, and the token records column 3.
\<close>

theorem tokenize_position_drift:
  "tokenize ''ab cd '' =
     Inr [\<lparr>type = TOKEN_IDENTIFIER, value = Some ''ab'', line = 1, column = 1\<rparr>,
          \<lparr>type = TOKEN_IDENTIFIER, value = Some ''cd'', line = 1, column = 3\<rparr>,
          \<lparr>type = TOKEN_EOF, value = Some ''EOF'', line = 1, column = 5\<rparr>]
   \<and> get_location_from_index 3 ''ab cd '' = (1, 4)"
  by code_simp

lemma tokenize_loop_step:
  "pos s < input_len input \<Longrightarrow> tokenize_step input s = Inr s' \<Longrightarrow>
   tokenize_loop input s = tokenize_loop input s'"
  by (subst tokenize_loop.simps) simp

lemma searching_step_fails_iff:
  "searching_step c False s = Inl e \<longleftrightarrow> \<not> matches_lexical_rule c \<and> e = UnexpectedCharacter c"
  unfolding searching_step_def matches_lexical_rule_def Let_def
  by (simp split: if_splits) blast

lemma tokenize_step_fails_iff:
  "tokenize_step input s = Inl e \<longleftrightarrow>
     state s = STATE_SEARCHING \<and> \<not> matches_lexical_rule (input ! pos s)
       \<and> e = UnexpectedCharacter (input ! pos s)"
  by (cases "state s") (simp_all add: tokenize_step_def searching_step_fails_iff)

lemma tokenize_step_progress:
  assumes "tokenize_step input s = Inr s'"
  shows "pos s' = pos s + 1 \<or> (pos s' = pos s \<and> state s' = STATE_SEARCHING \<and> state s \<noteq> STATE_SEARCHING)"
proof (cases "state s")
  case STATE_SEARCHING
  with assms show ?thesis
    by (auto simp: tokenize_step_def dest: searching_step_pos)
next
  case STATE_STRING
  with assms show ?thesis
    by (auto simp: tokenize_step_def string_step_def Let_def split: if_splits)
next
  case STATE_NUMBER
  with assms show ?thesis
    by (auto simp: tokenize_step_def number_step_def Let_def split: if_splits)
next
  case STATE_IDENTIFIER
  with assms show ?thesis
    by (auto simp: tokenize_step_def identifier_step_def Let_def split: if_splits)
qed

lemma string_scan:
  assumes "state s = STATE_STRING"
      and "\<forall>j<n. input ! (pos s + j) \<noteq> CHR 0x22"
      and "input ! (pos s + n) = CHR 0x22"
      and "pos s + n < input_len input"
  shows "tokenize_loop input s =
         tokenize_loop input
           (s\<lparr>toks := add_token (toks s) TOKEN_STRING
                      (Some (take (pos s + n - state_start s) (drop (state_start s) input)))
                      (state_start_line s) (state_start_column s),
              state := STATE_SEARCHING,
              pos := pos s + n + 1\<rparr>)"
  using assms
proof (induction n arbitrary: s)
  case 0
  then have "tokenize_step input s =
      Inr (s\<lparr>toks := add_token (toks s) TOKEN_STRING
                      (Some (take (pos s - state_start s) (drop (state_start s) input)))
                      (state_start_line s) (state_start_column s),
              state := STATE_SEARCHING,
              pos := pos s + 1\<rparr>)"
    by (simp add: tokenize_step_def string_step_def token_text_def)
  with 0 show ?case by (simp add: tokenize_loop_step)
next
  case (Suc n)
  let ?s1 = "s\<lparr>pos := pos s + 1\<rparr>"
  from Suc.prems have "input ! pos s \<noteq> CHR 0x22" by (metis add.right_neutral zero_less_Suc)
  with Suc.prems have step: "tokenize_step input s = Inr ?s1"
    by (simp add: tokenize_step_def string_step_def)
  from Suc.prems have lt: "pos s < input_len input" by simp
  have "tokenize_loop input ?s1 =
         tokenize_loop input
           (?s1\<lparr>toks := add_token (toks ?s1) TOKEN_STRING
                      (Some (take (pos ?s1 + n - state_start ?s1) (drop (state_start ?s1) input)))
                      (state_start_line ?s1) (state_start_column ?s1),
              state := STATE_SEARCHING,
              pos := pos ?s1 + n + 1\<rparr>)"
  proof (rule Suc.IH)
    show "state ?s1 = STATE_STRING" using Suc.prems by simp
    show "\<forall>j<n. input ! (pos ?s1 + j) \<noteq> CHR 0x22"
    proof (intro allI impI)
      fix j assume "j < n"
      then have "Suc j < Suc n" by simp
      with Suc.prems(2) have "input ! (pos s + Suc j) \<noteq> CHR 0x22" by blast
      then show "input ! (pos ?s1 + j) \<noteq> CHR 0x22" by simp
    qed
    show "input ! (pos ?s1 + n) = CHR 0x22" using Suc.prems by simp
    show "pos ?s1 + n < input_len input" using Suc.prems by simp
  qed
  with tokenize_loop_step [OF lt step] show ?case by simp
qed

text \<open>
  From the Searching state at an opening quote to the Searching state after the closing
  quote: one STRING token is added, whose text is the opening quote followed by the
  characters between the quotes.
\<close>

lemma string_literal_scanned:
  assumes "state s = STATE_SEARCHING"
      and "input ! pos s = CHR 0x22"
      and "\<forall>j<n. input ! (pos s + 1 + j) \<noteq> CHR 0x22"
      and "input ! (pos s + 1 + n) = CHR 0x22"
      and "pos s + 1 + n < input_len input"
  shows "tokenize_loop input s =
         tokenize_loop input
           (s\<lparr>state := STATE_SEARCHING,
              state_start := pos s,
              state_start_line := current_line s,
              state_start_column := current_column s,
              current_column := current_column s + 1,
              pos := pos s + n + 2,
              toks := add_token (toks s) TOKEN_STRING
                        (Some (CHR 0x22 # take n (drop (pos s + 1) input)))
                        (current_line s) (current_column s)\<rparr>)"
proof -
  let ?s1 = "s\<lparr>state_start := pos s,
                state_start_line := current_line s,
                state_start_column := current_column s,
                state := STATE_STRING,
                current_column := current_column s + 1,
                pos := pos s + 1\<rparr>"
  from assms(5) have lt: "pos s < input_len input" by simp
  with input_len_le [of input] have len: "pos s < length input" by simp
  from assms(1,2) have step: "tokenize_step input s = Inr ?s1"
    by (simp add: tokenize_step_def searching_step_def update_position_def)
  have scan: "tokenize_loop input ?s1 =
         tokenize_loop input
           (?s1\<lparr>toks := add_token (toks ?s1) TOKEN_STRING
                      (Some (take (pos ?s1 + n - state_start ?s1) (drop (state_start ?s1) input)))
                      (state_start_line ?s1) (state_start_column ?s1),
              state := STATE_SEARCHING,
              pos := pos ?s1 + n + 1\<rparr>)"
    by (rule string_scan) (use assms in simp_all)
  have lexeme: "take (Suc n) (drop (pos s) input) = CHR 0x22 # take n (drop (pos s + 1) input)"
    using len assms(2) by (simp add: Cons_nth_drop_Suc [symmetric])
  have same: "?s1\<lparr>toks := add_token (toks ?s1) TOKEN_STRING
                      (Some (take (pos ?s1 + n - state_start ?s1) (drop (state_start ?s1) input)))
                      (state_start_line ?s1) (state_start_column ?s1),
              state := STATE_SEARCHING,
              pos := pos ?s1 + n + 1\<rparr> =
           s\<lparr>state := STATE_SEARCHING,
              state_start := pos s,
              state_start_line := current_line s,
              state_start_column := current_column s,
              current_column := current_column s + 1,
              pos := pos s + n + 2,
              toks := add_token (toks s) TOKEN_STRING
                        (Some (CHR 0x22 # take n (drop (pos s + 1) input)))
                        (current_line s) (current_column s)\<rparr>"
    by (rule lexer.equality) (simp_all add: lexeme)
  from tokenize_loop_step [OF lt step] scan show ?thesis
    by (simp only: same)
qed

text \<open>The token array only grows.\<close>

lemma searching_step_shape:
  "searching_step c False s = Inr s' \<Longrightarrow> state s = STATE_SEARCHING \<Longrightarrow>
   pos s' = pos s + 1 \<and> (state s' = STATE_STRING \<longleftrightarrow> c = CHR 0x22) \<and> prefix (toks s) (toks s')"
  unfolding searching_step_def Let_def
  by (clarsimp simp: add_token_def update_position_def is_digit_def is_alpha_def
        split: if_splits)

lemma tokenize_step_toks_prefix:
  assumes "tokenize_step input s = Inr s'"
  shows "prefix (toks s) (toks s')"
proof (cases "state s")
  case STATE_SEARCHING
  with assms have "searching_step (input ! pos s) False s = Inr s'"
    by (simp add: tokenize_step_def)
  from searching_step_shape [OF this STATE_SEARCHING] show ?thesis by simp
next
  case STATE_STRING
  with assms show ?thesis
    by (auto simp: tokenize_step_def string_step_def add_token_def Let_def split: if_splits)
next
  case STATE_NUMBER
  with assms show ?thesis
    by (auto simp: tokenize_step_def number_step_def add_token_def Let_def split: if_splits)
next
  case STATE_IDENTIFIER
  with assms show ?thesis
    by (auto simp: tokenize_step_def identifier_step_def add_token_def Let_def split: if_splits)
qed

lemma tokenize_loop_toks_prefix:
  "tokenize_loop input s = Inr s' \<Longrightarrow> prefix (toks s) (toks s')"
proof (induction input s rule: tokenize_loop.induct)
  case (1 input s)
  show ?case
  proof (cases "pos s < input_len input")
    case False
    with "1.prems" show ?thesis by (simp add: tokenize_loop.simps)
  next
    case True
    with "1.prems" obtain s1 where step: "tokenize_step input s = Inr s1"
      and rest: "tokenize_loop input s1 = Inr s'"
      by (subst (asm) tokenize_loop.simps) (auto split: sum.splits)
    from "1.IH" [OF True step rest] tokenize_step_toks_prefix [OF step]
    show ?thesis by (rule prefix_order.trans [rotated])
  qed
qed

text \<open>
  The loop is in the String state exactly when the number of quote characters it has
  consumed is odd.
\<close>

definition quotes_before :: "string \<Rightarrow> nat \<Rightarrow> nat" where
  "quotes_before input n = length (filter (\<lambda>c. c = CHR 0x22) (take n input))"

definition string_state_inv :: "string \<Rightarrow> lexer \<Rightarrow> bool" where
  "string_state_inv input s \<longleftrightarrow>
     (state s = STATE_STRING \<longleftrightarrow> odd (quotes_before input (pos s)))"

lemma quotes_before_Suc:
  "n < length input \<Longrightarrow>
   quotes_before input (Suc n) =
     quotes_before input n + (if input ! n = CHR 0x22 then 1 else 0)"
  by (simp add: quotes_before_def take_Suc_conv_app_nth)

lemma tokenize_step_string_state_inv:
  assumes "pos s < input_len input" and "tokenize_step input s = Inr s'"
      and "string_state_inv input s"
  shows "string_state_inv input s'"
proof -
  from assms(1) input_len_le [of input] have len: "pos s < length input" by simp
  note q = quotes_before_Suc [OF len]
  show ?thesis
  proof (cases "state s")
    case STATE_SEARCHING
    with assms(2) have "searching_step (input ! pos s) False s = Inr s'"
      by (simp add: tokenize_step_def)
    from searching_step_shape [OF this STATE_SEARCHING] assms(3) STATE_SEARCHING q show ?thesis
      by (simp add: string_state_inv_def)
  next
    case STATE_STRING
    with assms(2,3) q show ?thesis
      by (auto simp: tokenize_step_def string_step_def string_state_inv_def Let_def
            split: if_splits)
  next
    case STATE_NUMBER
    with assms(2,3) q show ?thesis
      by (auto simp: tokenize_step_def number_step_def string_state_inv_def Let_def
            is_digit_def split: if_splits)
  next
    case STATE_IDENTIFIER
    with assms(2,3) q show ?thesis
      by (auto simp: tokenize_step_def identifier_step_def string_state_inv_def Let_def
            is_alpha_def split: if_splits)
  qed
qed

text \<open>
  A quote character that is preceded by an even number of quote characters is met in the
  Searching state, whatever the loop was doing before.
\<close>

lemma opening_quote_reached:
  "input ! p = CHR 0x22 \<Longrightarrow> p < input_len input \<Longrightarrow> even (quotes_before input p) \<Longrightarrow>
   string_state_inv input s \<Longrightarrow> pos s \<le> p \<Longrightarrow> tokenize_loop input s = Inr final \<Longrightarrow>
   \<exists>s0. state s0 = STATE_SEARCHING \<and> pos s0 = p \<and> prefix (toks s) (toks s0)
      \<and> tokenize_loop input s0 = Inr final"
proof (induction input s rule: tokenize_loop.induct)
  case (1 input s)
  note quote = "1.prems"(1) and p = "1.prems"(2) and ev = "1.prems"(3)
    and inv = "1.prems"(4) and le = "1.prems"(5) and run = "1.prems"(6)
  from le p have lt: "pos s < input_len input" by simp
  with run obtain s1 where step: "tokenize_step input s = Inr s1"
    and rest: "tokenize_loop input s1 = Inr final"
    by (subst (asm) tokenize_loop.simps) (auto split: sum.splits)
  have inv1: "string_state_inv input s1"
    using lt step inv by (rule tokenize_step_string_state_inv)
  have pre1: "prefix (toks s) (toks s1)"
    using step by (rule tokenize_step_toks_prefix)
  show ?case
  proof (cases "pos s = p")
    case False
    with le have "pos s < p" by simp
    with tokenize_step_progress [OF step] have "pos s1 \<le> p" by auto
    from "1.IH" [OF lt step quote p ev inv1 this rest] obtain s0 where
      "prefix (toks s1) (toks s0)" and
      "state s0 = STATE_SEARCHING \<and> pos s0 = p \<and> tokenize_loop input s0 = Inr final"
      by blast
    moreover from pre1 \<open>prefix (toks s1) (toks s0)\<close> have "prefix (toks s) (toks s0)"
      by (rule prefix_order.trans)
    ultimately show ?thesis by blast
  next
    case True
    with inv ev have not_string: "state s \<noteq> STATE_STRING"
      by (simp add: string_state_inv_def)
    show ?thesis
    proof (cases "state s = STATE_SEARCHING")
      case True
      with \<open>pos s = p\<close> run show ?thesis by auto
    next
      case False
      with not_string have "state s = STATE_NUMBER \<or> state s = STATE_IDENTIFIER"
        by (cases "state s") simp_all
      with step True quote have "state s1 = STATE_SEARCHING \<and> pos s1 = p"
        by (auto simp: tokenize_step_def number_step_def identifier_step_def Let_def
              is_digit_def is_alpha_def split: if_splits)
      with pre1 rest show ?thesis by auto
    qed
  qed
qed

lemma takeWhile_no_nul:
  "CHR 0x00 \<notin> set xs \<Longrightarrow>
   takeWhile (\<lambda>c. c \<noteq> CHR 0x00) (xs @ ys) = xs @ takeWhile (\<lambda>c. c \<noteq> CHR 0x00) ys"
  by (induction xs) auto

text \<open>
  Claim C3. Take an input in which a quote character is preceded by an even number of quote
  characters (so it opens a literal), is followed by characters \<open>body\<close> without a quote, and
  then by a closing quote, all before the end of the C string. When \<open>tokenize\<close> returns a
  token sequence, the sequence contains a STRING token whose text is the opening quote
  followed by \<open>body\<close>: the text starts at the opening quote and stops before the closing
  quote. The loop goes through a state \<open>s\<close> in which this token is the last one added, the
  state is Searching and the index is the one after the closing quote, and the rest of the
  run is the run from \<open>s\<close>.
\<close>

theorem string_token_starts_at_opening_quote:
  assumes "tokenize input = Inr ts"
      and "input = pre @ [CHR 0x22] @ body @ [CHR 0x22] @ rest"
      and "even (length (filter (\<lambda>c. c = CHR 0x22) pre))"
      and "CHR 0x22 \<notin> set body"
      and "CHR 0x00 \<notin> set pre" and "CHR 0x00 \<notin> set body"
  shows "\<exists>before tok after s.
           ts = before @ tok # after
         \<and> type tok = TOKEN_STRING
         \<and> value tok = Some (CHR 0x22 # body)
         \<and> state s = STATE_SEARCHING
         \<and> pos s = length pre + length body + 2
         \<and> toks s = before @ [tok]
         \<and> tokenize_loop input initial_lexer = tokenize_loop input s"
proof -
  let ?p = "length pre"
  let ?n = "length body"
  from assms(1) obtain final where loop: "tokenize_loop input initial_lexer = Inr final"
    and ts: "ts = add_token (toks final) TOKEN_EOF (Some ''EOF'') (current_line final)
                    (current_column final)"
    by (auto simp: tokenize_def split: sum.splits)
  have "CHR 0x00 \<notin> set (pre @ [CHR 0x22] @ body @ [CHR 0x22])"
    using assms(5,6) by simp
  from takeWhile_no_nul [OF this, of rest]
  have len: "?p + 1 + ?n < input_len input"
    unfolding input_len_def assms(2) by simp
  have open_q: "input ! ?p = CHR 0x22"
    unfolding assms(2) by (simp add: nth_append)
  have close_q: "input ! (?p + 1 + ?n) = CHR 0x22"
    unfolding assms(2) by (simp add: nth_append)
  have inner: "\<forall>j<?n. input ! (?p + 1 + j) \<noteq> CHR 0x22"
  proof (intro allI impI)
    fix j assume j: "j < ?n"
    then have "input ! (?p + 1 + j) = body ! j"
      unfolding assms(2) by (simp add: nth_append)
    with j assms(4) show "input ! (?p + 1 + j) \<noteq> CHR 0x22"
      by (metis nth_mem)
  qed
  have body: "take ?n (drop (?p + 1) input) = body"
    unfolding assms(2) by simp
  have ev: "even (quotes_before input ?p)"
    using assms(3) unfolding assms(2) quotes_before_def by simp
  have "string_state_inv input initial_lexer"
    by (simp add: string_state_inv_def initial_lexer_def quotes_before_def)
  moreover have "pos initial_lexer \<le> ?p"
    by (simp add: initial_lexer_def)
  ultimately obtain s0 where s0: "state s0 = STATE_SEARCHING" "pos s0 = ?p"
    and run0: "tokenize_loop input s0 = Inr final"
    using opening_quote_reached [OF open_q _ ev _ _ loop] len by auto
  let ?tok = "\<lparr>type = TOKEN_STRING, value = Some (CHR 0x22 # body),
               line = current_line s0, column = current_column s0\<rparr>"
  let ?s = "s0\<lparr>state := STATE_SEARCHING,
              state_start := pos s0,
              state_start_line := current_line s0,
              state_start_column := current_column s0,
              current_column := current_column s0 + 1,
              pos := pos s0 + ?n + 2,
              toks := add_token (toks s0) TOKEN_STRING
                        (Some (CHR 0x22 # take ?n (drop (pos s0 + 1) input)))
                        (current_line s0) (current_column s0)\<rparr>"
  have scanned: "tokenize_loop input s0 = tokenize_loop input ?s"
    by (rule string_literal_scanned) (use s0 open_q close_q inner len in simp_all)
  have toks_s: "toks ?s = toks s0 @ [?tok]"
    using s0 body by (simp add: add_token_def)
  from scanned run0 have "tokenize_loop input ?s = Inr final" by simp
  then have "prefix (toks ?s) (toks final)" by (rule tokenize_loop_toks_prefix)
  then obtain more where more: "toks final = toks s0 @ [?tok] @ more"
    unfolding toks_s by (auto simp: prefix_def)
  have "ts = toks s0 @ ?tok # (more @ [\<lparr>type = TOKEN_EOF, value = Some ''EOF'',
              line = current_line final, column = current_column final\<rparr>])"
    unfolding ts add_token_def more by simp
  moreover have "type ?tok = TOKEN_STRING" "value ?tok = Some (CHR 0x22 # body)" by simp_all
  moreover have "state ?s = STATE_SEARCHING" by simp
  moreover have "pos ?s = length pre + length body + 2" using s0 by simp
  moreover note toks_s
  moreover have "tokenize_loop input initial_lexer = tokenize_loop input ?s"
    using loop run0 scanned by simp
  ultimately show ?thesis by blast
qed

theorem string_token_starts_at_opening_quote_witness:
  "tokenize (''x='' @ [CHR 0x22] @ ''ab'' @ [CHR 0x22] @ '';'') =
     Inr [\<lparr>type = TOKEN_IDENTIFIER, value = Some ''x'', line = 1, column = 1\<rparr>,
          \<lparr>type = TOKEN_EQUAL, value = None, line = 1, column = 2\<rparr>,
          \<lparr>type = TOKEN_STRING, value = Some [CHR 0x22, CHR ''a'', CHR ''b''], line = 1, column = 3\<rparr>,
          \<lparr>type = TOKEN_SEMICOLON, value = None, line = 1, column = 4\<rparr>,
          \<lparr>type = TOKEN_EOF, value = Some ''EOF'', line = 1, column = 5\<rparr>]
   \<and> (\<exists>before tok after s.
         projr (tokenize (''x='' @ [CHR 0x22] @ ''ab'' @ [CHR 0x22] @ '';'')) = before @ tok # after
       \<and> type tok = TOKEN_STRING
       \<and> value tok = Some (CHR 0x22 # ''ab'')
       \<and> state s = STATE_SEARCHING
       \<and> pos s = length ''x='' + length ''ab'' + 2
       \<and> toks s = before @ [tok]
       \<and> tokenize_loop (''x='' @ [CHR 0x22] @ ''ab'' @ [CHR 0x22] @ '';'') initial_lexer =
           tokenize_loop (''x='' @ [CHR 0x22] @ ''ab'' @ [CHR 0x22] @ '';'') s)"
proof -
  let ?input = "''x='' @ [CHR 0x22] @ ''ab'' @ [CHR 0x22] @ '';''"
  have ev: "tokenize ?input =
     Inr [\<lparr>type = TOKEN_IDENTIFIER, value = Some ''x'', line = 1, column = 1\<rparr>,
          \<lparr>type = TOKEN_EQUAL, value = None, line = 1, column = 2\<rparr>,
          \<lparr>type = TOKEN_STRING, value = Some [CHR 0x22, CHR ''a'', CHR ''b''], line = 1, column = 3\<rparr>,
          \<lparr>type = TOKEN_SEMICOLON, value = None, line = 1, column = 4\<rparr>,
          \<lparr>type = TOKEN_EOF, value = Some ''EOF'', line = 1, column = 5\<rparr>]"
    by code_simp
  have "\<exists>before tok after s.
           projr (tokenize ?input) = before @ tok # after
         \<and> type tok = TOKEN_STRING
         \<and> value tok = Some (CHR 0x22 # ''ab'')
         \<and> state s = STATE_SEARCHING
         \<and> pos s = length ''x='' + length ''ab'' + 2
         \<and> toks s = before @ [tok]
         \<and> tokenize_loop ?input initial_lexer = tokenize_loop ?input s"
    unfolding ev sum.sel
    by (rule string_token_starts_at_opening_quote
              [OF ev, where pre = "''x=''" and body = "''ab''" and rest = "'';''"])
       simp_all
  with ev show ?thesis
    by simp
qed


lemma run_fuel_enough:
  "lexer_measure input s \<le> n \<Longrightarrow> run_fuel n input s = Some (tokenize_loop input s)"
proof (induction input s arbitrary: n rule: tokenize_loop.induct)
  case (1 input s)
  show ?case
  proof (cases "pos s < input_len input")
    case False
    then show ?thesis by (cases n) (simp_all add: tokenize_loop.simps)
  next
    case True
    then have "0 < lexer_measure input s" by (simp add: lexer_measure_def)
    with "1.prems" obtain m where n: "n = Suc m" by (cases n) auto
    show ?thesis
    proof (cases "tokenize_step input s")
      case (Inl e)
      with True n show ?thesis by (simp add: tokenize_loop.simps)
    next
      case (Inr s')
      with True have "lexer_measure input s' < lexer_measure input s"
        by (simp add: tokenize_step_measure)
      with "1.prems" n have "lexer_measure input s' \<le> m" by simp
      with "1.IH" True Inr have "run_fuel m input s' = Some (tokenize_loop input s')" by simp
      with True Inr n show ?thesis by (simp add: tokenize_loop.simps)
    qed
  qed
qed

lemma tokenize_loop_error:
  "tokenize_loop input s = Inl e \<Longrightarrow>
   \<exists>c. e = UnexpectedCharacter c \<and> c \<in> set input \<and> \<not> matches_lexical_rule c"
proof (induction input s rule: tokenize_loop.induct)
  case (1 input s)
  show ?case
  proof (cases "pos s < input_len input")
    case False
    with "1.prems" show ?thesis by (simp add: tokenize_loop.simps)
  next
    case True
    with input_len_le [of input] have len: "pos s < length input" by simp
    show ?thesis
    proof (cases "tokenize_step input s")
      case (Inl e')
      with True "1.prems" have "e' = e" by (simp add: tokenize_loop.simps)
      with Inl len show ?thesis by (auto simp: tokenize_step_fails_iff)
    next
      case (Inr s')
      with True "1.prems" have "tokenize_loop input s' = Inl e" by (simp add: tokenize_loop.simps)
      with "1.IH" True Inr show ?thesis by simp
    qed
  qed
qed

text \<open>
  Claim C9. An iteration of the scanning loop fails exactly when it is in the Searching state
  at a character that matches no lexical rule, and it reports that character. Every other
  iteration decreases \<open>lexer_measure\<close>: it consumes a character, or it leaves the index alone
  and moves from a non-Searching state to the Searching state. The loop started by
  \<open>tokenize\<close> ends within \<open>2 * input_len input\<close> iterations, and \<open>tokenize\<close> returns a token
  sequence or fails on a character of the input that matches no lexical rule.
\<close>

theorem tokenize_total:
  "(\<forall>e. tokenize_step input s = Inl e \<longleftrightarrow>
         state s = STATE_SEARCHING \<and> \<not> matches_lexical_rule (input ! pos s)
           \<and> e = UnexpectedCharacter (input ! pos s))
   \<and> (\<forall>s'. pos s < input_len input \<and> tokenize_step input s = Inr s' \<longrightarrow>
         lexer_measure input s' < lexer_measure input s
       \<and> (pos s' = pos s + 1
          \<or> (pos s' = pos s \<and> state s' = STATE_SEARCHING \<and> state s \<noteq> STATE_SEARCHING)))
   \<and> run_fuel (2 * input_len input) input initial_lexer
         = Some (tokenize_loop input initial_lexer)
   \<and> ((\<exists>ts. tokenize input = Inr ts)
      \<or> (\<exists>c. tokenize input = Inl (UnexpectedCharacter c)
              \<and> c \<in> set input \<and> \<not> matches_lexical_rule c))"
proof (intro conjI allI impI)
  fix e
  show "tokenize_step input s = Inl e \<longleftrightarrow>
         state s = STATE_SEARCHING \<and> \<not> matches_lexical_rule (input ! pos s)
           \<and> e = UnexpectedCharacter (input ! pos s)"
    by (rule tokenize_step_fails_iff)
next
  fix s' assume "pos s < input_len input \<and> tokenize_step input s = Inr s'"
  then show "lexer_measure input s' < lexer_measure input s"
    by (simp add: tokenize_step_measure)
next
  fix s' assume "pos s < input_len input \<and> tokenize_step input s = Inr s'"
  then show "pos s' = pos s + 1
          \<or> (pos s' = pos s \<and> state s' = STATE_SEARCHING \<and> state s \<noteq> STATE_SEARCHING)"
    using tokenize_step_progress by blast
next
  show "run_fuel (2 * input_len input) input initial_lexer
         = Some (tokenize_loop input initial_lexer)"
    by (rule run_fuel_enough) (simp add: lexer_measure_def initial_lexer_def)
next
  show "(\<exists>ts. tokenize input = Inr ts)
      \<or> (\<exists>c. tokenize input = Inl (UnexpectedCharacter c)
              \<and> c \<in> set input \<and> \<not> matches_lexical_rule c)"
  proof (cases "tokenize_loop input initial_lexer")
    case (Inl e)
    with tokenize_loop_error [OF Inl] show ?thesis by (auto simp: tokenize_def)
  next
    case (Inr s')
    then show ?thesis by (simp add: tokenize_def)
  qed
qed

theorem tokenize_total_witness:
  "tokenize ''a@'' = Inl (UnexpectedCharacter (CHR ''@''))
   \<and> run_fuel 4 ''a@'' initial_lexer = Some (Inl (UnexpectedCharacter (CHR ''@'')))
   \<and> lexer_measure ''a@'' (projr (tokenize_step ''a@'' initial_lexer)) < lexer_measure ''a@'' initial_lexer"
proof -
  have a: "tokenize ''a@'' = Inl (UnexpectedCharacter (CHR ''@''))" by code_simp
  have b: "tokenize_loop ''a@'' initial_lexer = Inl (UnexpectedCharacter (CHR ''@''))" by code_simp
  have c: "input_len ''a@'' = 2" by (simp add: input_len_def)
  have d: "tokenize_step ''a@'' initial_lexer = Inr (projr (tokenize_step ''a@'' initial_lexer))"
    by code_simp
  from tokenize_total [of "''a@''" initial_lexer] a b c d show ?thesis
    by (simp add: initial_lexer_def)
qed


section \<open>Parser (src/ast/c/ast.c and src/ast-wasm/c/wasm_ast.c, identical text)\<close>

text \<open>
  The tagged union \<open>ASTNode\<close>: one constructor per \<open>NodeType\<close>, carrying the fields of the
  matching union member. A child pointer that the parser may leave \<open>NULL\<close> (the else block,
  the operator and the right operand of an expression) is an \<open>option\<close>.
\<close>

datatype ASTNode =
    NODE_PROGRAM ASTNode
  | NODE_STATEMENT_BLOCK "ASTNode list"
  | NODE_VARIABLE_STATEMENT string
  | NODE_IF_STATEMENT ASTNode ASTNode "ASTNode option"
  | NODE_WHILE_STATEMENT ASTNode ASTNode
  | NODE_ASSIGNMENT_STATEMENT string ASTNode
  | NODE_CONDITION ASTNode string ASTNode
  | NODE_EXPRESSION Token "string option" "ASTNode option"

record Parser =
  tokens :: "Token list"
  token_count :: nat
  current_token_index :: nat
  current_token :: Token

text \<open>
  \<open>ParserError\<close> is the exit of \<open>parser_error\<close>, \<open>UnexpectedEndOfInput\<close> the exit of
  \<open>next_token\<close>. \<open>DeadPointerRead\<close> is not an exit of the program: it marks a run in which
  \<open>strdup\<close> is given the \<open>value\<close> pointer of a separator or operator token, whose target is
  dead, so that what the program does from there on is undefined.
\<close>

datatype parse_error = ParserError string int int | UnexpectedEndOfInput | DeadPointerRead

definition parser_error :: "Parser \<Rightarrow> string \<Rightarrow> parse_error" where
  "parser_error parser message =
     ParserError message (line (current_token parser)) (column (current_token parser))"

definition next_token :: "Parser \<Rightarrow> parse_error + Parser" where
  "next_token parser =
     (let index = current_token_index parser + 1 in
      if index \<ge> token_count parser then Inl UnexpectedEndOfInput
      else Inr (parser\<lparr>current_token_index := index, current_token := tokens parser ! index\<rparr>))"

definition accept :: "Parser \<Rightarrow> TokenType \<Rightarrow> parse_error + (bool \<times> Parser)" where
  "accept parser token_type =
     (if type (current_token parser) = token_type
      then (case next_token parser of Inl e \<Rightarrow> Inl e | Inr p \<Rightarrow> Inr (True, p))
      else Inr (False, parser))"

definition peek :: "Parser \<Rightarrow> TokenType \<Rightarrow> bool" where
  "peek parser token_type \<longleftrightarrow> type (current_token parser) = token_type"

definition expect :: "Parser \<Rightarrow> TokenType \<Rightarrow> parse_error + Parser" where
  "expect parser token_type =
     (case accept parser token_type of
        Inl e \<Rightarrow> Inl e
      | Inr (accepted, p) \<Rightarrow> if accepted then Inr p else Inl (parser_error p ''expect''))"

text \<open>
  The two assignments \<open>node->data.expression.operator = op\<close> and
  \<open>node->data.expression.right = parse_expression(parser)\<close> of each operator branch.
\<close>

definition with_right ::
  "Token \<Rightarrow> string \<Rightarrow> parse_error + (ASTNode \<times> Parser) \<Rightarrow> parse_error + (ASTNode \<times> Parser)" where
  "with_right left_token operator r =
     (case r of
        Inl e \<Rightarrow> Inl e
      | Inr (right, p) \<Rightarrow> Inr (NODE_EXPRESSION left_token (Some operator) (Some right), p))"

lemma accept_True_index:
  "accept p ty = Inr (True, p') \<Longrightarrow>
     current_token_index p' = current_token_index p + 1
   \<and> current_token_index p' < token_count p \<and> token_count p' = token_count p"
  by (auto simp: accept_def next_token_def Let_def split: if_splits sum.splits)

lemma accept_False_same: "accept p ty = Inr (False, p') \<Longrightarrow> p' = p"
  by (auto simp: accept_def split: if_splits sum.splits)

function parse_expression :: "Parser \<Rightarrow> parse_error + (ASTNode \<times> Parser)" where
  "parse_expression parser =
     (let left_token = current_token parser in
      case accept parser TOKEN_NUMBER of Inl e \<Rightarrow> Inl e | Inr (is_number, p1) \<Rightarrow>
      case (if is_number then Inr (True, p1) else accept p1 TOKEN_STRING) of
        Inl e \<Rightarrow> Inl e | Inr (is_string, p2) \<Rightarrow>
      case (if is_string then Inr (True, p2) else accept p2 TOKEN_IDENTIFIER) of
        Inl e \<Rightarrow> Inl e | Inr (is_operand, p3) \<Rightarrow>
      if is_operand then
        (case accept p3 TOKEN_PLUS of Inl e \<Rightarrow> Inl e | Inr (is_plus, p4) \<Rightarrow>
         if is_plus then with_right left_token ''+'' (parse_expression p4)
         else case accept p4 TOKEN_MINUS of Inl e \<Rightarrow> Inl e | Inr (is_minus, p5) \<Rightarrow>
         if is_minus then with_right left_token ''-'' (parse_expression p5)
         else case accept p5 TOKEN_MULTIPLY of Inl e \<Rightarrow> Inl e | Inr (is_multiply, p6) \<Rightarrow>
         if is_multiply then with_right left_token ''*'' (parse_expression p6)
         else case accept p6 TOKEN_DIVIDE of Inl e \<Rightarrow> Inl e | Inr (is_divide, p7) \<Rightarrow>
         if is_divide then with_right left_token ''/'' (parse_expression p7)
         else Inr (NODE_EXPRESSION left_token None None, p7))
      else Inl (parser_error p3 ''expression''))"
  by pat_completeness simp
termination
proof (relation "measure (\<lambda>p. token_count p - current_token_index p)")
qed (auto dest!: accept_True_index accept_False_same split: if_splits)


declare parse_expression.simps [simp del]

definition parse_condition :: "Parser \<Rightarrow> parse_error + (ASTNode \<times> Parser)" where
  "parse_condition parser =
     (case parse_expression parser of Inl e \<Rightarrow> Inl e | Inr (left_node, p1) \<Rightarrow>
      case accept p1 TOKEN_GREATER of Inl e \<Rightarrow> Inl e | Inr (is_greater, p2) \<Rightarrow>
      if is_greater then
        (case parse_expression p2 of Inl e \<Rightarrow> Inl e
         | Inr (right, p) \<Rightarrow> Inr (NODE_CONDITION left_node ''>'' right, p))
      else case accept p2 TOKEN_LESS of Inl e \<Rightarrow> Inl e | Inr (is_less, p3) \<Rightarrow>
      if is_less then
        (case parse_expression p3 of Inl e \<Rightarrow> Inl e
         | Inr (right, p) \<Rightarrow> Inr (NODE_CONDITION left_node ''<'' right, p))
      else case accept p3 TOKEN_EQUAL of Inl e \<Rightarrow> Inl e | Inr (is_equal, p4) \<Rightarrow>
      if is_equal then
        (case parse_expression p4 of Inl e \<Rightarrow> Inl e
         | Inr (right, p) \<Rightarrow> Inr (NODE_CONDITION left_node ''='' right, p))
      else Inl (parser_error p4 ''condition''))"

text \<open>
  \<open>parse_statement\<close> and \<open>parse_statement_block\<close> call each other. Their model carries a
  budget that is decremented each time the \<open>do ... while\<close> loop of \<open>parse_statement_block\<close>
  starts a statement; \<open>None\<close> is an exhausted budget, not an outcome of the C code.
\<close>

type_synonym 'a parsing = "(parse_error + ('a \<times> Parser)) option"

definition bind :: "(parse_error + 'a) option \<Rightarrow> ('a \<Rightarrow> (parse_error + 'b) option) \<Rightarrow> (parse_error + 'b) option" where
  "bind m f = (case m of None \<Rightarrow> None | Some (Inl e) \<Rightarrow> Some (Inl e) | Some (Inr x) \<Rightarrow> f x)"

fun parse_statement :: "nat \<Rightarrow> Parser \<Rightarrow> ASTNode parsing"
  and parse_statement_block :: "nat \<Rightarrow> Parser \<Rightarrow> ASTNode parsing"
  and statement_loop :: "nat \<Rightarrow> Parser \<Rightarrow> (ASTNode list) parsing"
where
  "parse_statement n parser =
     bind (Some (accept parser TOKEN_VAR)) (\<lambda>(is_var, p1).
     if is_var then
       (case value (current_token p1) of
          None \<Rightarrow> Some (Inl DeadPointerRead)
        | Some identifier \<Rightarrow>
            bind (Some (expect p1 TOKEN_IDENTIFIER)) (\<lambda>p2.
            Some (Inr (NODE_VARIABLE_STATEMENT identifier, p2))))
     else bind (Some (accept p1 TOKEN_IF)) (\<lambda>(is_if, p2).
     if is_if then
       bind (Some (expect p2 TOKEN_LPAREN)) (\<lambda>p3.
       bind (Some (parse_condition p3)) (\<lambda>(condition_node, p4).
       bind (Some (expect p4 TOKEN_RPAREN)) (\<lambda>p5.
       bind (Some (expect p5 TOKEN_LBRACE)) (\<lambda>p6.
       bind (parse_statement_block n p6) (\<lambda>(block_node, p7).
       bind (Some (expect p7 TOKEN_RBRACE)) (\<lambda>p8.
       bind (Some (accept p8 TOKEN_ELSE)) (\<lambda>(has_else, p9).
       if has_else then
         bind (Some (expect p9 TOKEN_LBRACE)) (\<lambda>p10.
         bind (parse_statement_block n p10) (\<lambda>(else_block_node, p11).
         bind (Some (expect p11 TOKEN_RBRACE)) (\<lambda>p12.
         Some (Inr (NODE_IF_STATEMENT condition_node block_node (Some else_block_node), p12)))))
       else Some (Inr (NODE_IF_STATEMENT condition_node block_node None, p9)))))))))
     else bind (Some (accept p2 TOKEN_WHILE)) (\<lambda>(is_while, p3).
     if is_while then
       bind (Some (expect p3 TOKEN_LPAREN)) (\<lambda>p4.
       bind (Some (parse_condition p4)) (\<lambda>(condition_node, p5).
       bind (Some (expect p5 TOKEN_RPAREN)) (\<lambda>p6.
       bind (Some (expect p6 TOKEN_LBRACE)) (\<lambda>p7.
       bind (parse_statement_block n p7) (\<lambda>(block_node, p8).
       bind (Some (expect p8 TOKEN_RBRACE)) (\<lambda>p9.
       Some (Inr (NODE_WHILE_STATEMENT condition_node block_node, p9))))))))
     else if peek p3 TOKEN_IDENTIFIER then
       (case value (current_token p3) of
          None \<Rightarrow> Some (Inl DeadPointerRead)
        | Some identifier \<Rightarrow>
            bind (Some (accept p3 TOKEN_IDENTIFIER)) (\<lambda>(_, p4).
            bind (Some (expect p4 TOKEN_EQUAL)) (\<lambda>p5.
            bind (Some (parse_expression p5)) (\<lambda>(expression_node, p6).
            Some (Inr (NODE_ASSIGNMENT_STATEMENT identifier expression_node, p6))))))
     else Some (Inl (parser_error p3 ''statement'')))))"
| "parse_statement_block n parser =
     bind (statement_loop n parser) (\<lambda>(statements, p).
     Some (Inr (NODE_STATEMENT_BLOCK statements, p)))"
| "statement_loop 0 parser = None"
| "statement_loop (Suc n) parser =
     bind (parse_statement n parser) (\<lambda>(statement, p1).
     bind (Some (accept p1 TOKEN_SEMICOLON)) (\<lambda>(more, p2).
     if more then
       bind (statement_loop n p2) (\<lambda>(statements, p3). Some (Inr (statement # statements, p3)))
     else Some (Inr ([statement], p2))))"

definition parse_program :: "nat \<Rightarrow> Parser \<Rightarrow> ASTNode parsing" where
  "parse_program n parser =
     bind (parse_statement_block n parser) (\<lambda>(block, p).
     if type (current_token p) \<noteq> TOKEN_EOF then Some (Inl (parser_error p ''program''))
     else Some (Inr (NODE_PROGRAM block, p)))"

text \<open>
  \<open>parse\<close> starts at \<open>tokens[0]\<close>; \<open>tokenize\<close> never returns an empty array. The budget is
  the number of tokens: every statement consumes at least one token.
\<close>

definition parse :: "Token list \<Rightarrow> (parse_error + ASTNode) option" where
  "parse token_array =
     bind (parse_program (length token_array)
             \<lparr>tokens = token_array, token_count = length token_array,
              current_token_index = 0, current_token = token_array ! 0\<rparr>)
       (\<lambda>(program, p). Some (Inr program))"

text \<open>The pipeline of \<open>parse_file\<close> and \<open>generateAst\<close> up to the tree: \<open>tokenize\<close>, then \<open>parse\<close>.\<close>

text \<open>
  The ways a run ends without a document. \<open>SerializerDeadPointerRead\<close> marks, like
  \<open>DeadPointerRead\<close>, a run whose behaviour is undefined: a serializer was given a token with
  a dead \<open>value\<close> pointer.
\<close>

datatype failure = LexError lex_error | ParseError parse_error | SerializerDeadPointerRead

definition generate_tree :: "string \<Rightarrow> (failure + ASTNode) option" where
  "generate_tree input =
     (case tokenize input of
        Inl e \<Rightarrow> Some (Inl (LexError e))
      | Inr token_array \<Rightarrow>
          (case parse token_array of
             None \<Rightarrow> None
           | Some (Inl e) \<Rightarrow> Some (Inl (ParseError e))
           | Some (Inr program) \<Rightarrow> Some (Inr program)))"


section \<open>Properties of the parser\<close>

text \<open>The operator text that \<open>parse_expression\<close> stores for each arithmetic token type.\<close>

definition operator_symbol :: "TokenType \<Rightarrow> string" where
  "operator_symbol ty =
     (if ty = TOKEN_PLUS then ''+'' else if ty = TOKEN_MINUS then ''-''
      else if ty = TOKEN_MULTIPLY then ''*'' else ''/'')"

definition is_operand :: "Token \<Rightarrow> bool" where
  "is_operand t \<longleftrightarrow> type t = TOKEN_NUMBER \<or> type t = TOKEN_STRING \<or> type t = TOKEN_IDENTIFIER"

definition is_arithmetic :: "Token \<Rightarrow> bool" where
  "is_arithmetic t \<longleftrightarrow>
     type t = TOKEN_PLUS \<or> type t = TOKEN_MINUS \<or> type t = TOKEN_MULTIPLY \<or> type t = TOKEN_DIVIDE"

lemma parse_expression_chain:
  assumes "is_operand (current_token p)"
      and "is_arithmetic (tokens p ! (current_token_index p + 1))"
      and "current_token_index p + 2 < token_count p"
  shows "parse_expression p =
         with_right (current_token p)
           (operator_symbol (type (tokens p ! (current_token_index p + 1))))
           (parse_expression
              (p\<lparr>current_token_index := current_token_index p + 2,
                 current_token := tokens p ! (current_token_index p + 2)\<rparr>))"
  using assms
  by (subst parse_expression.simps)
     (auto simp: is_operand_def is_arithmetic_def accept_def next_token_def operator_symbol_def)

lemma parse_expression_last:
  assumes "is_operand (current_token p)"
      and "\<not> is_arithmetic (tokens p ! (current_token_index p + 1))"
      and "current_token_index p + 1 < token_count p"
  shows "parse_expression p =
         Inr (NODE_EXPRESSION (current_token p) None None,
              p\<lparr>current_token_index := current_token_index p + 1,
                 current_token := tokens p ! (current_token_index p + 1)\<rparr>)"
  using assms
  by (subst parse_expression.simps)
     (auto simp: is_operand_def is_arithmetic_def accept_def next_token_def)


text \<open>
  When the current token starts a sequence \<open>a op1 b op2 c\<close> of operands (NUMBER, STRING or
  IDENTIFIER) and arithmetic operators (any of \<open>+ - * /\<close>) that is followed by one more token
  \<open>t\<close> which is not an arithmetic operator, \<open>parse_expression\<close> returns the tree
  \<open>a op1 (b op2 c)\<close>, whatever the two operators are, and leaves \<open>t\<close> as the current token.
  Every token sequence that \<open>tokenize\<close> returns ends with the EOF token, so an expression that
  is complete in the token sequence always has such a token after it.
\<close>

lemma parse_expression_right_associative:
  assumes "is_operand a" and "is_operand b" and "is_operand c"
      and "is_arithmetic op1" and "is_arithmetic op2" and "\<not> is_arithmetic t"
      and "tokens p = pre @ [a, op1, b, op2, c, t] @ rest"
      and "token_count p = length (tokens p)"
      and "current_token_index p = length pre"
      and "current_token p = a"
  shows "parse_expression p =
         Inr (NODE_EXPRESSION a (Some (operator_symbol (type op1)))
                (Some (NODE_EXPRESSION b (Some (operator_symbol (type op2)))
                   (Some (NODE_EXPRESSION c None None)))),
              p\<lparr>current_token_index := length pre + 5, current_token := t\<rparr>)"
proof -
  have cnt: "token_count p = length pre + 6 + length rest"
    using assms(7,8) by simp
  have e1: "tokens p ! Suc (length pre) = op1"
   and e2: "tokens p ! Suc (Suc (length pre)) = b"
   and e3: "tokens p ! Suc (Suc (Suc (length pre))) = op2"
   and e4: "tokens p ! Suc (Suc (Suc (Suc (length pre)))) = c"
   and e5: "tokens p ! Suc (Suc (Suc (Suc (Suc (length pre))))) = t"
    using assms(7) by (simp_all add: nth_append)
  let ?p2 = "p\<lparr>current_token_index := Suc (Suc (length pre)), current_token := b\<rparr>"
  let ?p4 = "p\<lparr>current_token_index := Suc (Suc (Suc (Suc (length pre)))),
               current_token := c\<rparr>"
  let ?p5 = "p\<lparr>current_token_index := Suc (Suc (Suc (Suc (Suc (length pre))))),
               current_token := t\<rparr>"
  have first: "parse_expression p =
      with_right a (operator_symbol (type op1)) (parse_expression ?p2)"
    using parse_expression_chain [of p] assms(1,4,9,10) cnt e1 e2 by simp
  have second: "parse_expression ?p2 =
      with_right b (operator_symbol (type op2)) (parse_expression ?p4)"
    using parse_expression_chain [of ?p2] assms(2,5) cnt e3 e4 by simp
  have third: "parse_expression ?p4 = Inr (NODE_EXPRESSION c None None, ?p5)"
    using parse_expression_last [of ?p4] assms(3,6) cnt e5 by simp
  have "length pre + 5 = Suc (Suc (Suc (Suc (Suc (length pre)))))"
    by simp
  then show ?thesis
    by (simp only: first second third with_right_def sum.case prod.case)
qed

text \<open>
  Claim C4. On the text \<open>x=1+2+3\<close> the program does not build the chain \<open>1 + (2 + 3)\<close>: it
  stops with the parse error tagged \<open>expression\<close> at line 1, column 8. The scanning loop is
  still in the Number state when the input ends and nothing emits the pending \<open>3\<close> (the
  defect shown for claim C1), so the token sequence is \<open>x = 1 + 2 + EOF\<close> and
  \<open>parse_expression\<close> meets EOF where the third operand should be. With one more character
  after the \<open>3\<close>, here a newline, the same text gives the right-associative chain.
\<close>

theorem parse_x_1_2_3_loses_last_operand:
  "map type (projr (tokenize ''x=1+2+3'')) =
     [TOKEN_IDENTIFIER, TOKEN_EQUAL, TOKEN_NUMBER, TOKEN_PLUS, TOKEN_NUMBER, TOKEN_PLUS, TOKEN_EOF]
   \<and> generate_tree ''x=1+2+3'' = Some (Inl (ParseError (ParserError ''expression'' 1 8)))
   \<and> generate_tree (''x=1+2+3'' @ [CHR 0x0A]) =
     Some (Inr (NODE_PROGRAM (NODE_STATEMENT_BLOCK
       [NODE_ASSIGNMENT_STATEMENT ''x''
          (NODE_EXPRESSION \<lparr>type = TOKEN_NUMBER, value = Some ''1'', line = 1, column = 3\<rparr>
             (Some ''+'')
             (Some (NODE_EXPRESSION \<lparr>type = TOKEN_NUMBER, value = Some ''2'', line = 1, column = 5\<rparr>
                (Some ''+'')
                (Some (NODE_EXPRESSION
                   \<lparr>type = TOKEN_NUMBER, value = Some ''3'', line = 1, column = 7\<rparr>
                   None None)))))])))"
  by code_simp

lemma parse_condition_result:
  assumes "parse_condition p = Inr (node, p')"
  shows "\<exists>l operator r. node = NODE_CONDITION l operator r
           \<and> (operator = ''>'' \<or> operator = ''<'' \<or> operator = ''='')"
  using assms unfolding parse_condition_def
  by (auto split: sum.splits prod.splits if_splits)

lemma parse_condition_missing_comparator:
  assumes "parse_expression p = Inr (e, p1)"
      and "type (current_token p1) \<noteq> TOKEN_GREATER"
      and "type (current_token p1) \<noteq> TOKEN_LESS"
      and "type (current_token p1) \<noteq> TOKEN_EQUAL"
  shows "parse_condition p =
         Inl (ParserError ''condition'' (line (current_token p1)) (column (current_token p1)))"
  using assms by (simp add: parse_condition_def accept_def parser_error_def)

text \<open>
  Claim C5. Whenever \<open>parse_condition\<close> returns a node, it is a Condition node whose operator is
  one of \<open>> < =\<close>. When the left expression parses and the token after it is none of the
  three comparators, \<open>parse_condition\<close> fails with the parse error tagged \<open>condition\<close> at that
  token. In particular \<open>if(x){y=1}\<close> fails with that error.
\<close>

theorem parse_condition_requires_comparator:
  "(parse_condition p = Inr (node, p') \<longrightarrow>
      (\<exists>l operator r. node = NODE_CONDITION l operator r
           \<and> (operator = ''>'' \<or> operator = ''<'' \<or> operator = ''='')))
   \<and> (parse_expression p = Inr (e, p1)
        \<and> type (current_token p1) \<noteq> TOKEN_GREATER
        \<and> type (current_token p1) \<noteq> TOKEN_LESS
        \<and> type (current_token p1) \<noteq> TOKEN_EQUAL \<longrightarrow>
      parse_condition p =
        Inl (ParserError ''condition'' (line (current_token p1)) (column (current_token p1))))
   \<and> generate_tree ''if(x){y=1}'' = Some (Inl (ParseError (ParserError ''condition'' 1 4)))"
proof (intro conjI impI)
  assume "parse_condition p = Inr (node, p')"
  then show "\<exists>l operator r. node = NODE_CONDITION l operator r
           \<and> (operator = ''>'' \<or> operator = ''<'' \<or> operator = ''='')"
    by (rule parse_condition_result)
next
  assume "parse_expression p = Inr (e, p1)
        \<and> type (current_token p1) \<noteq> TOKEN_GREATER
        \<and> type (current_token p1) \<noteq> TOKEN_LESS
        \<and> type (current_token p1) \<noteq> TOKEN_EQUAL"
  then show "parse_condition p =
        Inl (ParserError ''condition'' (line (current_token p1)) (column (current_token p1)))"
    by (simp add: parse_condition_missing_comparator)
next
  show "generate_tree ''if(x){y=1}'' = Some (Inl (ParseError (ParserError ''condition'' 1 4)))"
    by code_simp
qed


theorem parse_condition_requires_comparator_witness:
  "parse_condition
     \<lparr>tokens = projr (tokenize ''if(x){y=1}''), token_count = 10, current_token_index = 2,
      current_token = \<lparr>type = TOKEN_IDENTIFIER, value = Some ''x'', line = 1, column = 3\<rparr>\<rparr>
     = Inl (ParserError ''condition'' 1 4)
   \<and> (\<exists>l operator r.
        fst (projr (parse_condition
          \<lparr>tokens = projr (tokenize ''if(x>1){y=2}''), token_count = 12, current_token_index = 2,
           current_token = \<lparr>type = TOKEN_IDENTIFIER, value = Some ''x'', line = 1, column = 3\<rparr>\<rparr>))
        = NODE_CONDITION l operator r
        \<and> (operator = ''>'' \<or> operator = ''<'' \<or> operator = ''=''))"
proof -
  let ?x = "\<lparr>type = TOKEN_IDENTIFIER, value = Some ''x'', line = 1, column = 3\<rparr>"
  let ?p = "\<lparr>tokens = projr (tokenize ''if(x){y=1}''), token_count = 10,
             current_token_index = 2, current_token = ?x\<rparr>"
  let ?p1 = "\<lparr>tokens = projr (tokenize ''if(x){y=1}''), token_count = 10,
             current_token_index = 3,
             current_token = \<lparr>type = TOKEN_RPAREN, value = None, line = 1, column = 4\<rparr>\<rparr>"
  let ?q = "\<lparr>tokens = projr (tokenize ''if(x>1){y=2}''), token_count = 12,
             current_token_index = 2, current_token = ?x\<rparr>"
  have left: "parse_expression ?p = Inr (NODE_EXPRESSION ?x None None, ?p1)"
    by code_simp
  have fails: "parse_condition ?p = Inl (ParserError ''condition'' 1 4)"
    using parse_condition_requires_comparator
            [of ?p undefined undefined "NODE_EXPRESSION ?x None None" ?p1] left
    by simp
  let ?node = "NODE_CONDITION (NODE_EXPRESSION ?x None None) ''>''
                 (NODE_EXPRESSION
                    \<lparr>type = TOKEN_NUMBER, value = Some ''1'', line = 1, column = 5\<rparr> None None)"
  let ?q' = "\<lparr>tokens = projr (tokenize ''if(x>1){y=2}''), token_count = 12,
             current_token_index = 5,
             current_token = \<lparr>type = TOKEN_RPAREN, value = None, line = 1, column = 6\<rparr>\<rparr>"
  have ok: "parse_condition ?q = Inr (?node, ?q')"
    by code_simp
  have "\<exists>l operator r. ?node = NODE_CONDITION l operator r
          \<and> (operator = ''>'' \<or> operator = ''<'' \<or> operator = ''='')"
    using parse_condition_requires_comparator [of ?q ?node ?q' undefined undefined] ok
    by blast
  with ok fails show ?thesis by simp
qed

section \<open>Serializers\<close>

subsection \<open>Formatting shared by both serializers\<close>

text \<open>\<open>%d\<close> of \<open>printf\<close>: the decimal digits, with a minus sign for a negative value.\<close>

definition digit_char :: "nat \<Rightarrow> char" where
  "digit_char d = char_of (of_char (CHR ''0'') + d)"

function format_nat :: "nat \<Rightarrow> string" where
  "format_nat n = (if n < 10 then [digit_char n] else format_nat (n div 10) @ [digit_char (n mod 10)])"
  by pat_completeness simp
termination
  by (relation "measure id") simp_all

declare format_nat.simps [simp del]

definition format_int :: "int \<Rightarrow> string" where
  "format_int v = (if v < 0 then CHR ''-'' # format_nat (nat (- v)) else format_nat (nat v))"

text \<open>The values of the enumerators of \<open>TokenType\<close> and \<open>NodeType\<close>.\<close>

fun token_type_ordinal :: "TokenType \<Rightarrow> int" where
  "token_type_ordinal TOKEN_EOF = 0"
| "token_type_ordinal TOKEN_VAR = 1"
| "token_type_ordinal TOKEN_IF = 2"
| "token_type_ordinal TOKEN_ELSE = 3"
| "token_type_ordinal TOKEN_WHILE = 4"
| "token_type_ordinal TOKEN_LPAREN = 5"
| "token_type_ordinal TOKEN_RPAREN = 6"
| "token_type_ordinal TOKEN_LBRACE = 7"
| "token_type_ordinal TOKEN_RBRACE = 8"
| "token_type_ordinal TOKEN_SEMICOLON = 9"
| "token_type_ordinal TOKEN_PLUS = 10"
| "token_type_ordinal TOKEN_MINUS = 11"
| "token_type_ordinal TOKEN_MULTIPLY = 12"
| "token_type_ordinal TOKEN_DIVIDE = 13"
| "token_type_ordinal TOKEN_GREATER = 14"
| "token_type_ordinal TOKEN_LESS = 15"
| "token_type_ordinal TOKEN_EQUAL = 16"
| "token_type_ordinal TOKEN_NUMBER = 17"
| "token_type_ordinal TOKEN_STRING = 18"
| "token_type_ordinal TOKEN_IDENTIFIER = 19"

fun node_type :: "ASTNode \<Rightarrow> int" where
  "node_type (NODE_PROGRAM _) = 0"
| "node_type (NODE_STATEMENT_BLOCK _) = 1"
| "node_type (NODE_VARIABLE_STATEMENT _) = 2"
| "node_type (NODE_IF_STATEMENT _ _ _) = 3"
| "node_type (NODE_WHILE_STATEMENT _ _) = 4"
| "node_type (NODE_ASSIGNMENT_STATEMENT _ _) = 5"
| "node_type (NODE_CONDITION _ _ _) = 6"
| "node_type (NODE_EXPRESSION _ _ _) = 7"

text \<open>The literal \<open>"name": \<close> that precedes every value in both serializers.\<close>

definition key :: "string \<Rightarrow> string" where
  "key name = CHR 0x22 # name @ CHR 0x22 # '': ''"

subsection \<open>Streaming serializer (src/ast/c/ast.c)\<close>

text \<open>The functions return the characters they write to the \<open>FILE\<close>.\<close>

definition write_json_char :: "char \<Rightarrow> string" where
  "write_json_char c =
     (if c = CHR 0x22 then [CHR 0x5C, CHR 0x22]
      else if c = CHR 0x5C then [CHR 0x5C, CHR 0x5C]
      else if c = CHR 0x0A then [CHR 0x5C, CHR ''n'']
      else if c = CHR 0x09 then [CHR 0x5C, CHR ''t'']
      else [c])"

definition write_json_string :: "string \<Rightarrow> nat \<Rightarrow> string" where
  "write_json_string str indent = CHR 0x22 # concat (map write_json_char str) @ [CHR 0x22]"

definition write_indent :: "nat \<Rightarrow> string" where
  "write_indent indent = concat (replicate indent ''  '')"

text \<open>
  The serializers read \<open>token->value\<close>. A serializer that is given a token whose \<open>value\<close>
  pointer is dead has no defined output: the result is \<open>None\<close>. Otherwise the functions
  return the characters they write.
\<close>

definition write_token_to_json :: "Token \<Rightarrow> nat \<Rightarrow> string option" where
  "write_token_to_json token indent =
     (case value token of
        None \<Rightarrow> None
      | Some v \<Rightarrow> Some (
          ''{\<newline>'' @
          write_indent (indent + 1) @ key ''type'' @ format_int (token_type_ordinal (type token)) @ '',\<newline>'' @
          write_indent (indent + 1) @ key ''value'' @ write_json_string v (indent + 1) @ '',\<newline>'' @
          write_indent (indent + 1) @ key ''line'' @ format_int (line token) @ '',\<newline>'' @
          write_indent (indent + 1) @ key ''column'' @ format_int (column token) @ ''\<newline>'' @
          write_indent indent @ ''}''))"

text \<open>
  \<open>write_ast_to_json\<close> prints the same opening before its \<open>switch\<close> and the same closing
  after it. Every case of the \<open>switch\<close> opens the data object with the same three calls,
  separates fields with the same two and closes it with the same three.
\<close>

definition data_open :: "nat \<Rightarrow> string" where
  "data_open indent =
     '',\<newline>'' @ write_indent (indent + 1) @ CHR 0x22 # ''data'' @ CHR 0x22 # '': {\<newline>'' @
     write_indent (indent + 2)"

definition data_next :: "nat \<Rightarrow> string" where
  "data_next indent = '',\<newline>'' @ write_indent (indent + 2)"

definition data_close :: "nat \<Rightarrow> string" where
  "data_close indent = ''\<newline>'' @ write_indent (indent + 1) @ ''}''"

definition node_open :: "nat \<Rightarrow> ASTNode \<Rightarrow> string" where
  "node_open indent node =
     ''{\<newline>'' @ write_indent (indent + 1) @ key ''type'' @ format_int (node_type node)"

definition node_close :: "nat \<Rightarrow> string" where
  "node_close indent = ''\<newline>'' @ write_indent indent @ ''}''"

fun write_ast_to_json :: "ASTNode option \<Rightarrow> nat \<Rightarrow> string option"
  and write_statement_list_to_json :: "ASTNode list \<Rightarrow> nat \<Rightarrow> string option"
  and write_statement_list_items :: "ASTNode list \<Rightarrow> nat \<Rightarrow> string option"
where
  "write_ast_to_json None indent = Some ''null''"
| "write_ast_to_json (Some (NODE_PROGRAM block)) indent =
     (case write_ast_to_json (Some block) (indent + 2) of None \<Rightarrow> None | Some block_json \<Rightarrow>
      Some (node_open indent (NODE_PROGRAM block) @
            data_open indent @ key ''block'' @ block_json @
            data_close indent @
            node_close indent))"
| "write_ast_to_json (Some (NODE_STATEMENT_BLOCK statements)) indent =
     (case write_statement_list_to_json statements (indent + 2) of
        None \<Rightarrow> None | Some statements_json \<Rightarrow>
      Some (node_open indent (NODE_STATEMENT_BLOCK statements) @
            data_open indent @ key ''statements'' @ statements_json @
            data_close indent @
            node_close indent))"
| "write_ast_to_json (Some (NODE_VARIABLE_STATEMENT identifier)) indent =
     Some (node_open indent (NODE_VARIABLE_STATEMENT identifier) @
           data_open indent @ key ''identifier'' @ write_json_string identifier (indent + 2) @
           data_close indent @
           node_close indent)"
| "write_ast_to_json (Some (NODE_IF_STATEMENT condition block else_block)) indent =
     (case write_ast_to_json (Some condition) (indent + 2) of
        None \<Rightarrow> None | Some condition_json \<Rightarrow>
      case write_ast_to_json (Some block) (indent + 2) of None \<Rightarrow> None | Some block_json \<Rightarrow>
      case write_ast_to_json else_block (indent + 2) of None \<Rightarrow> None | Some else_json \<Rightarrow>
      Some (node_open indent (NODE_IF_STATEMENT condition block else_block) @
            data_open indent @ key ''condition'' @ condition_json @
            data_next indent @ key ''block'' @ block_json @
            data_next indent @ key ''elseBlock'' @ else_json @
            data_close indent @
            node_close indent))"
| "write_ast_to_json (Some (NODE_WHILE_STATEMENT condition block)) indent =
     (case write_ast_to_json (Some condition) (indent + 2) of
        None \<Rightarrow> None | Some condition_json \<Rightarrow>
      case write_ast_to_json (Some block) (indent + 2) of None \<Rightarrow> None | Some block_json \<Rightarrow>
      Some (node_open indent (NODE_WHILE_STATEMENT condition block) @
            data_open indent @ key ''condition'' @ condition_json @
            data_next indent @ key ''block'' @ block_json @
            data_close indent @
            node_close indent))"
| "write_ast_to_json (Some (NODE_ASSIGNMENT_STATEMENT identifier v)) indent =
     (case write_ast_to_json (Some v) (indent + 2) of None \<Rightarrow> None | Some value_json \<Rightarrow>
      Some (node_open indent (NODE_ASSIGNMENT_STATEMENT identifier v) @
            data_open indent @ key ''identifier'' @ write_json_string identifier (indent + 2) @
            data_next indent @ key ''value'' @ value_json @
            data_close indent @
            node_close indent))"
| "write_ast_to_json (Some (NODE_CONDITION left operator right)) indent =
     (case write_ast_to_json (Some left) (indent + 2) of None \<Rightarrow> None | Some left_json \<Rightarrow>
      case write_ast_to_json (Some right) (indent + 2) of None \<Rightarrow> None | Some right_json \<Rightarrow>
      Some (node_open indent (NODE_CONDITION left operator right) @
            data_open indent @ key ''left'' @ left_json @
            data_next indent @ key ''operator'' @ write_json_string operator (indent + 2) @
            data_next indent @ key ''right'' @ right_json @
            data_close indent @
            node_close indent))"
| "write_ast_to_json (Some (NODE_EXPRESSION left_token operator right)) indent =
     (case write_token_to_json left_token (indent + 2) of None \<Rightarrow> None | Some token_json \<Rightarrow>
      case write_ast_to_json right (indent + 2) of None \<Rightarrow> None | Some right_json \<Rightarrow>
      Some (node_open indent (NODE_EXPRESSION left_token operator right) @
            data_open indent @ key ''leftToken'' @ token_json @
            data_next indent @ key ''operator'' @
            (case operator of
               Some op \<Rightarrow> write_json_string op (indent + 2)
             | None \<Rightarrow> ''null'') @
            data_next indent @ key ''right'' @ right_json @
            data_close indent @
            node_close indent))"
| "write_statement_list_to_json list indent =
     (case write_statement_list_items list indent of None \<Rightarrow> None | Some items_json \<Rightarrow>
      Some (''[\<newline>'' @ items_json @ write_indent indent @ '']''))"
| "write_statement_list_items [] indent = Some []"
| "write_statement_list_items (statement # rest) indent =
     (case write_ast_to_json (Some statement) (indent + 1) of
        None \<Rightarrow> None | Some statement_json \<Rightarrow>
      case write_statement_list_items rest indent of None \<Rightarrow> None | Some rest_json \<Rightarrow>
      Some (write_indent (indent + 1) @ statement_json @
            (if rest \<noteq> [] then '','' else []) @ ''\<newline>'' @
            rest_json))"

declare write_ast_to_json.simps [simp del]
declare write_statement_list_to_json.simps [simp del]
declare write_statement_list_items.simps [simp del]

subsection \<open>Buffered serializer (src/ast-wasm/c/wasm_ast.c)\<close>

text \<open>
  The functions return the characters they append to the buffer \<open>json_result\<close>, which
  \<open>generateAst\<close> empties before the call.
\<close>

definition hex_char :: "nat \<Rightarrow> char" where
  "hex_char d = (if d < 10 then char_of (of_char (CHR ''0'') + d)
                 else char_of (of_char (CHR ''a'') + (d - 10)))"

definition json_escape_char :: "char \<Rightarrow> string" where
  "json_escape_char c =
     (if c = CHR 0x22 then [CHR 0x5C, CHR 0x22]
      else if c = CHR 0x5C then [CHR 0x5C, CHR 0x5C]
      else if c = CHR 0x0A then [CHR 0x5C, CHR ''n'']
      else if c = CHR 0x09 then [CHR 0x5C, CHR ''t'']
      else if c = CHR 0x0D then [CHR 0x5C, CHR ''r'']
      else if c = CHR 0x08 then [CHR 0x5C, CHR ''b'']
      else if c = CHR 0x0C then [CHR 0x5C, CHR ''f'']
      else if (of_char c :: nat) < 32 then
        [CHR 0x5C, CHR ''u'', CHR ''0'', CHR ''0'',
         hex_char (of_char c div 16), hex_char (of_char c mod 16)]
      else [c])"

definition json_append_escaped_string :: "string \<Rightarrow> string" where
  "json_append_escaped_string str = CHR 0x22 # concat (map json_escape_char str) @ [CHR 0x22]"

definition json_append_int :: "int \<Rightarrow> string" where
  "json_append_int v = format_int v"

definition serialize_token :: "Token \<Rightarrow> string option" where
  "serialize_token token =
     (case value token of
        None \<Rightarrow> None
      | Some v \<Rightarrow> Some (
          ''{\<newline>    '' @ key ''type'' @ json_append_int (token_type_ordinal (type token)) @
          '',\<newline>    '' @ key ''value'' @ json_append_escaped_string v @
          '',\<newline>    '' @ key ''line'' @ json_append_int (line token) @
          '',\<newline>    '' @ key ''column'' @ json_append_int (column token) @
          ''\<newline>  }''))"

text \<open>The appends of \<open>serialize_ast\<close> before and after its \<open>switch\<close>.\<close>

definition node_prefix :: "ASTNode \<Rightarrow> string" where
  "node_prefix node =
     ''{\<newline>  '' @ key ''type'' @ json_append_int (node_type node) @
     '',\<newline>  '' @ key ''data''"

definition node_suffix :: string where
  "node_suffix = ''\<newline>}''"

fun serialize_ast :: "ASTNode option \<Rightarrow> string option"
  and serialize_statement_list :: "ASTNode list \<Rightarrow> string option"
  and serialize_statement_list_items :: "ASTNode list \<Rightarrow> string option"
where
  "serialize_ast None = Some ''null''"
| "serialize_ast (Some (NODE_PROGRAM block)) =
     (case serialize_ast (Some block) of None \<Rightarrow> None | Some block_json \<Rightarrow>
      Some (node_prefix (NODE_PROGRAM block) @
            ''{\<newline>    '' @ key ''block'' @ block_json @ ''\<newline>  }'' @
            node_suffix))"
| "serialize_ast (Some (NODE_STATEMENT_BLOCK statements)) =
     (case serialize_statement_list statements of None \<Rightarrow> None | Some statements_json \<Rightarrow>
      Some (node_prefix (NODE_STATEMENT_BLOCK statements) @
            ''{\<newline>    '' @ key ''statements'' @ statements_json @
            ''\<newline>  }'' @
            node_suffix))"
| "serialize_ast (Some (NODE_VARIABLE_STATEMENT identifier)) =
     Some (node_prefix (NODE_VARIABLE_STATEMENT identifier) @
           ''{\<newline>    '' @ key ''identifier'' @ json_append_escaped_string identifier @
           ''\<newline>  }'' @
           node_suffix)"
| "serialize_ast (Some (NODE_IF_STATEMENT condition block else_block)) =
     (case serialize_ast (Some condition) of None \<Rightarrow> None | Some condition_json \<Rightarrow>
      case serialize_ast (Some block) of None \<Rightarrow> None | Some block_json \<Rightarrow>
      case serialize_ast else_block of None \<Rightarrow> None | Some else_json \<Rightarrow>
      Some (node_prefix (NODE_IF_STATEMENT condition block else_block) @
            ''{\<newline>    '' @ key ''condition'' @ condition_json @
            '',\<newline>    '' @ key ''block'' @ block_json @
            '',\<newline>    '' @ key ''elseBlock'' @ else_json @
            ''\<newline>  }'' @
            node_suffix))"
| "serialize_ast (Some (NODE_WHILE_STATEMENT condition block)) =
     (case serialize_ast (Some condition) of None \<Rightarrow> None | Some condition_json \<Rightarrow>
      case serialize_ast (Some block) of None \<Rightarrow> None | Some block_json \<Rightarrow>
      Some (node_prefix (NODE_WHILE_STATEMENT condition block) @
            ''{\<newline>    '' @ key ''condition'' @ condition_json @
            '',\<newline>    '' @ key ''block'' @ block_json @
            ''\<newline>  }'' @
            node_suffix))"
| "serialize_ast (Some (NODE_ASSIGNMENT_STATEMENT identifier v)) =
     (case serialize_ast (Some v) of None \<Rightarrow> None | Some value_json \<Rightarrow>
      Some (node_prefix (NODE_ASSIGNMENT_STATEMENT identifier v) @
            ''{\<newline>    '' @ key ''identifier'' @ json_append_escaped_string identifier @
            '',\<newline>    '' @ key ''value'' @ value_json @
            ''\<newline>  }'' @
            node_suffix))"
| "serialize_ast (Some (NODE_CONDITION left operator right)) =
     (case serialize_ast (Some left) of None \<Rightarrow> None | Some left_json \<Rightarrow>
      case serialize_ast (Some right) of None \<Rightarrow> None | Some right_json \<Rightarrow>
      Some (node_prefix (NODE_CONDITION left operator right) @
            ''{\<newline>    '' @ key ''left'' @ left_json @
            '',\<newline>    '' @ key ''operator'' @ json_append_escaped_string operator @
            '',\<newline>    '' @ key ''right'' @ right_json @
            ''\<newline>  }'' @
            node_suffix))"
| "serialize_ast (Some (NODE_EXPRESSION left_token operator right)) =
     (case serialize_token left_token of None \<Rightarrow> None | Some token_json \<Rightarrow>
      case serialize_ast right of None \<Rightarrow> None | Some right_json \<Rightarrow>
      Some (node_prefix (NODE_EXPRESSION left_token operator right) @
            ''{\<newline>    '' @ key ''leftToken'' @ token_json @
            '',\<newline>    '' @ key ''operator'' @
            (case operator of
               Some op \<Rightarrow> json_append_escaped_string op
             | None \<Rightarrow> ''null'') @
            '',\<newline>    '' @ key ''right'' @ right_json @
            ''\<newline>  }'' @
            node_suffix))"
| "serialize_statement_list list =
     (case serialize_statement_list_items list of None \<Rightarrow> None | Some items_json \<Rightarrow>
      Some (''[\<newline>'' @ items_json @ ''  ]''))"
| "serialize_statement_list_items [] = Some []"
| "serialize_statement_list_items (statement # rest) =
     (case serialize_ast (Some statement) of None \<Rightarrow> None | Some statement_json \<Rightarrow>
      case serialize_statement_list_items rest of None \<Rightarrow> None | Some rest_json \<Rightarrow>
      Some (''    '' @ statement_json @
            (if rest \<noteq> [] then '','' else []) @ ''\<newline>'' @
            rest_json))"

declare serialize_ast.simps [simp del]
declare serialize_statement_list.simps [simp del]
declare serialize_statement_list_items.simps [simp del]

text \<open>
  The documents of the two programs for a source text: \<open>parse_file\<close> writes the tree with
  indent 0 and a final newline; \<open>generateAst\<close> returns the buffer.
\<close>

definition parse_file :: "string \<Rightarrow> (failure + string) option" where
  "parse_file file_contents =
     (case generate_tree file_contents of
        None \<Rightarrow> None
      | Some (Inl e) \<Rightarrow> Some (Inl e)
      | Some (Inr ast) \<Rightarrow>
          (case write_ast_to_json (Some ast) 0 of
             None \<Rightarrow> Some (Inl SerializerDeadPointerRead)
           | Some json \<Rightarrow> Some (Inr (json @ ''\<newline>''))))"

definition generateAst :: "string \<Rightarrow> (failure + string) option" where
  "generateAst input =
     (case generate_tree input of
        None \<Rightarrow> None
      | Some (Inl e) \<Rightarrow> Some (Inl e)
      | Some (Inr ast) \<Rightarrow>
          (case serialize_ast (Some ast) of
             None \<Rightarrow> Some (Inl SerializerDeadPointerRead)
           | Some json \<Rightarrow> Some (Inr json)))"

section \<open>Properties of the serializers\<close>

text \<open>A document with its spaces, newlines, tabs and carriage returns removed.\<close>

definition without_whitespace :: "string \<Rightarrow> string" where
  "without_whitespace doc =
     filter (\<lambda>c. c \<noteq> CHR '' '' \<and> c \<noteq> CHR 0x0A \<and> c \<noteq> CHR 0x09 \<and> c \<noteq> CHR 0x0D) doc"

text \<open>All nodes of a tree, the root first, and the direct children of a node.\<close>

fun subnodes :: "ASTNode \<Rightarrow> ASTNode list" where
  "subnodes (NODE_PROGRAM block) = NODE_PROGRAM block # subnodes block"
| "subnodes (NODE_STATEMENT_BLOCK statements) =
     NODE_STATEMENT_BLOCK statements # concat (map subnodes statements)"
| "subnodes (NODE_VARIABLE_STATEMENT identifier) = [NODE_VARIABLE_STATEMENT identifier]"
| "subnodes (NODE_IF_STATEMENT condition block else_block) =
     NODE_IF_STATEMENT condition block else_block # subnodes condition @ subnodes block @
     (case else_block of None \<Rightarrow> [] | Some e \<Rightarrow> subnodes e)"
| "subnodes (NODE_WHILE_STATEMENT condition block) =
     NODE_WHILE_STATEMENT condition block # subnodes condition @ subnodes block"
| "subnodes (NODE_ASSIGNMENT_STATEMENT identifier v) =
     NODE_ASSIGNMENT_STATEMENT identifier v # subnodes v"
| "subnodes (NODE_CONDITION left operator right) =
     NODE_CONDITION left operator right # subnodes left @ subnodes right"
| "subnodes (NODE_EXPRESSION left_token operator right) =
     NODE_EXPRESSION left_token operator right #
     (case right of None \<Rightarrow> [] | Some r \<Rightarrow> subnodes r)"

fun children :: "ASTNode \<Rightarrow> ASTNode list" where
  "children (NODE_PROGRAM block) = [block]"
| "children (NODE_STATEMENT_BLOCK statements) = statements"
| "children (NODE_VARIABLE_STATEMENT identifier) = []"
| "children (NODE_IF_STATEMENT condition block else_block) =
     condition # block # (case else_block of None \<Rightarrow> [] | Some e \<Rightarrow> [e])"
| "children (NODE_WHILE_STATEMENT condition block) = [condition, block]"
| "children (NODE_ASSIGNMENT_STATEMENT identifier v) = [v]"
| "children (NODE_CONDITION left operator right) = [left, right]"
| "children (NODE_EXPRESSION left_token operator right) =
     (case right of None \<Rightarrow> [] | Some r \<Rightarrow> [r])"

text \<open>
  Claim C7. The source text \<open>x="\<close>, carriage return, \<open>"\<close> parses to a Program tree whose
  string token contains a carriage return. The streaming serializer writes the carriage
  return as it is (\<open>write_json_string\<close> escapes only quote, backslash, newline and tab), the
  buffered serializer writes the two characters backslash and \<open>r\<close>. The two documents differ
  even with all whitespace removed.
\<close>

theorem serializers_differ_on_carriage_return:
  "generate_tree (''x='' @ [CHR 0x22, CHR 0x0D, CHR 0x22]) =
     Some (Inr (NODE_PROGRAM (NODE_STATEMENT_BLOCK
       [NODE_ASSIGNMENT_STATEMENT ''x''
          (NODE_EXPRESSION
             \<lparr>type = TOKEN_STRING, value = Some [CHR 0x22, CHR 0x0D], line = 1, column = 3\<rparr>
             None None)])))
   \<and> write_ast_to_json (Some (NODE_PROGRAM (NODE_STATEMENT_BLOCK
       [NODE_ASSIGNMENT_STATEMENT ''x''
          (NODE_EXPRESSION
             \<lparr>type = TOKEN_STRING, value = Some [CHR 0x22, CHR 0x0D], line = 1, column = 3\<rparr>
             None None)]))) 0 \<noteq> None
   \<and> serialize_ast (Some (NODE_PROGRAM (NODE_STATEMENT_BLOCK
       [NODE_ASSIGNMENT_STATEMENT ''x''
          (NODE_EXPRESSION
             \<lparr>type = TOKEN_STRING, value = Some [CHR 0x22, CHR 0x0D], line = 1, column = 3\<rparr>
             None None)]))) \<noteq> None
   \<and> map_option without_whitespace (write_ast_to_json (Some (NODE_PROGRAM (NODE_STATEMENT_BLOCK
       [NODE_ASSIGNMENT_STATEMENT ''x''
          (NODE_EXPRESSION
             \<lparr>type = TOKEN_STRING, value = Some [CHR 0x22, CHR 0x0D], line = 1, column = 3\<rparr>
             None None)]))) 0)
     \<noteq> map_option without_whitespace (serialize_ast (Some (NODE_PROGRAM (NODE_STATEMENT_BLOCK
       [NODE_ASSIGNMENT_STATEMENT ''x''
          (NODE_EXPRESSION
             \<lparr>type = TOKEN_STRING, value = Some [CHR 0x22, CHR 0x0D], line = 1, column = 3\<rparr>
             None None)]))))
   \<and> write_json_string [CHR 0x22, CHR 0x0D] 0 = [CHR 0x22, CHR 0x5C, CHR 0x22, CHR 0x0D, CHR 0x22]
   \<and> json_append_escaped_string [CHR 0x22, CHR 0x0D] =
         [CHR 0x22, CHR 0x5C, CHR 0x22, CHR 0x5C, CHR ''r'', CHR 0x22]"
  by code_simp

lemma sublist_in_left: "sublist xs b \<Longrightarrow> sublist xs (a @ b)"
proof -
  assume "sublist xs b"
  then obtain ps ss where "b = ps @ xs @ ss" by (auto simp: sublist_def)
  then have "a @ b = (a @ ps) @ xs @ ss" by simp
  then show ?thesis unfolding sublist_def by blast
qed

lemma sublist_in_right: "sublist xs a \<Longrightarrow> sublist xs (a @ b)"
proof -
  assume "sublist xs a"
  then obtain ps ss where "a = ps @ xs @ ss" by (auto simp: sublist_def)
  then have "a @ b = ps @ xs @ (ss @ b)" by simp
  then show ?thesis unfolding sublist_def by blast
qed

lemma sublist_self: "sublist xs xs"
  unfolding sublist_def by (metis append_Nil append_Nil2)

lemma sublist_trans: "sublist xs ys \<Longrightarrow> sublist ys zs \<Longrightarrow> sublist xs zs"
proof -
  assume "sublist xs ys" and "sublist ys zs"
  then obtain p1 s1 p2 s2 where "ys = p1 @ xs @ s1" and "zs = p2 @ ys @ s2"
    by (auto simp: sublist_def)
  then have "zs = (p2 @ p1) @ xs @ (s1 @ s2)" by simp
  then show ?thesis unfolding sublist_def by blast
qed

lemma case_option_Some_iff:
  "(case m of None \<Rightarrow> None | Some x \<Rightarrow> f x) = Some y \<longleftrightarrow> (\<exists>x. m = Some x \<and> f x = Some y)"
  by (cases m) simp_all

lemma write_items_embed:
  "x \<in> set xs \<Longrightarrow> write_statement_list_items xs indent = Some doc \<Longrightarrow>
   \<exists>d. write_ast_to_json (Some x) (indent + 1) = Some d \<and> sublist d doc"
proof (induction xs arbitrary: doc)
  case Nil
  then show ?case by simp
next
  case (Cons a xs)
  from Cons.prems(2) obtain a_json rest_json where
    a: "write_ast_to_json (Some a) (indent + 1) = Some a_json"
    and r: "write_statement_list_items xs indent = Some rest_json"
    and doc: "doc = write_indent (indent + 1) @ a_json @
                (if xs \<noteq> [] then '','' else []) @ ''\<newline>'' @ rest_json"
    by (simp only: write_statement_list_items.simps case_option_Some_iff option.inject) blast
  show ?case
  proof (cases "x = a")
    case True
    have "sublist a_json doc"
      unfolding doc by (fast intro: sublist_in_left sublist_in_right sublist_self)
    with True a show ?thesis by blast
  next
    case False
    with Cons.prems(1) have "x \<in> set xs" by simp
    from Cons.IH [OF this r] obtain d where
      d: "write_ast_to_json (Some x) (indent + 1) = Some d" and "sublist d rest_json"
      by blast
    then have "sublist d doc"
      unfolding doc by (fast intro: sublist_in_left sublist_in_right)
    with d show ?thesis by blast
  qed
qed

lemma serialize_items_embed:
  "x \<in> set xs \<Longrightarrow> serialize_statement_list_items xs = Some doc \<Longrightarrow>
   \<exists>d. serialize_ast (Some x) = Some d \<and> sublist d doc"
proof (induction xs arbitrary: doc)
  case Nil
  then show ?case by simp
next
  case (Cons a xs)
  from Cons.prems(2) obtain a_json rest_json where
    a: "serialize_ast (Some a) = Some a_json"
    and r: "serialize_statement_list_items xs = Some rest_json"
    and doc: "doc = ''    '' @ a_json @ (if xs \<noteq> [] then '','' else []) @ ''\<newline>'' @ rest_json"
    by (simp only: serialize_statement_list_items.simps case_option_Some_iff option.inject) blast
  show ?case
  proof (cases "x = a")
    case True
    have "sublist a_json doc"
      unfolding doc by (fast intro: sublist_in_left sublist_in_right sublist_self)
    with True a show ?thesis by blast
  next
    case False
    with Cons.prems(1) have "x \<in> set xs" by simp
    from Cons.IH [OF this r] obtain d where
      d: "serialize_ast (Some x) = Some d" and "sublist d rest_json"
      by blast
    then have "sublist d doc"
      unfolding doc by (fast intro: sublist_in_left sublist_in_right)
    with d show ?thesis by blast
  qed
qed

lemma subnodes_children: "subnodes t = t # concat (map subnodes (children t))"
  by (cases t) (auto split: option.splits)

lemma size_children: "c \<in> set (children t) \<Longrightarrow> size c < size t"
  by (cases t) (auto split: option.splits simp: less_Suc_eq_le size_list_estimation')

text \<open>The document of a node contains the document of each of its children.\<close>

lemma write_child_embed:
  assumes "c \<in> set (children t)" and "write_ast_to_json (Some t) indent = Some doc"
  shows "\<exists>i d. write_ast_to_json (Some c) i = Some d \<and> sublist d doc"
proof (cases t)
  case (NODE_PROGRAM block)
  from assms(2) obtain block_json where
    "write_ast_to_json (Some block) (indent + 2) = Some block_json"
    and doc: "doc = node_open indent (NODE_PROGRAM block) @
            data_open indent @ key ''block'' @ block_json @
            data_close indent @ node_close indent"
    unfolding NODE_PROGRAM
    by (simp only: write_ast_to_json.simps case_option_Some_iff option.inject) blast
  moreover have "sublist block_json doc"
    unfolding doc by (fast intro: sublist_in_left sublist_in_right sublist_self)
  ultimately show ?thesis using assms(1) NODE_PROGRAM by auto
next
  case (NODE_STATEMENT_BLOCK statements)
  from assms(2) obtain items_json where
    items: "write_statement_list_items statements (indent + 2) = Some items_json"
    and doc: "doc = node_open indent (NODE_STATEMENT_BLOCK statements) @
            data_open indent @ key ''statements'' @
            (''[\<newline>'' @ items_json @ write_indent (indent + 2) @ '']'') @
            data_close indent @ node_close indent"
    unfolding NODE_STATEMENT_BLOCK
    by (simp only: write_ast_to_json.simps write_statement_list_to_json.simps
          case_option_Some_iff option.inject) blast
  from assms(1) NODE_STATEMENT_BLOCK have "c \<in> set statements" by simp
  from write_items_embed [OF this items] obtain d where
    d: "write_ast_to_json (Some c) (indent + 2 + 1) = Some d" and "sublist d items_json"
    by blast
  then have "sublist d doc"
    unfolding doc by (fast intro: sublist_in_left sublist_in_right)
  with d show ?thesis by blast
next
  case (NODE_VARIABLE_STATEMENT name)
  with assms(1) show ?thesis by simp
next
  case (NODE_IF_STATEMENT condition block else_block)
  from assms(2) obtain condition_json block_json else_json where
    c: "write_ast_to_json (Some condition) (indent + 2) = Some condition_json"
    and b: "write_ast_to_json (Some block) (indent + 2) = Some block_json"
    and e: "write_ast_to_json else_block (indent + 2) = Some else_json"
    and doc: "doc = node_open indent (NODE_IF_STATEMENT condition block else_block) @
            data_open indent @ key ''condition'' @ condition_json @
            data_next indent @ key ''block'' @ block_json @
            data_next indent @ key ''elseBlock'' @ else_json @
            data_close indent @ node_close indent"
    unfolding NODE_IF_STATEMENT
    by (simp only: write_ast_to_json.simps case_option_Some_iff option.inject) blast
  have "sublist condition_json doc" and "sublist block_json doc" and "sublist else_json doc"
    unfolding doc by (fast intro: sublist_in_left sublist_in_right sublist_self)+
  with c b e assms(1) NODE_IF_STATEMENT show ?thesis
    by (auto split: option.splits)
next
  case (NODE_WHILE_STATEMENT condition block)
  from assms(2) obtain condition_json block_json where
    c: "write_ast_to_json (Some condition) (indent + 2) = Some condition_json"
    and b: "write_ast_to_json (Some block) (indent + 2) = Some block_json"
    and doc: "doc = node_open indent (NODE_WHILE_STATEMENT condition block) @
            data_open indent @ key ''condition'' @ condition_json @
            data_next indent @ key ''block'' @ block_json @
            data_close indent @ node_close indent"
    unfolding NODE_WHILE_STATEMENT
    by (simp only: write_ast_to_json.simps case_option_Some_iff option.inject) blast
  have "sublist condition_json doc" and "sublist block_json doc"
    unfolding doc by (fast intro: sublist_in_left sublist_in_right sublist_self)+
  with c b assms(1) NODE_WHILE_STATEMENT show ?thesis by auto
next
  case (NODE_ASSIGNMENT_STATEMENT name v)
  from assms(2) obtain value_json where
    v: "write_ast_to_json (Some v) (indent + 2) = Some value_json"
    and doc: "doc = node_open indent (NODE_ASSIGNMENT_STATEMENT name v) @
            data_open indent @ key ''identifier'' @ write_json_string name (indent + 2) @
            data_next indent @ key ''value'' @ value_json @
            data_close indent @ node_close indent"
    unfolding NODE_ASSIGNMENT_STATEMENT
    by (simp only: write_ast_to_json.simps case_option_Some_iff option.inject) blast
  have "sublist value_json doc"
    unfolding doc by (fast intro: sublist_in_left sublist_in_right sublist_self)
  with v assms(1) NODE_ASSIGNMENT_STATEMENT show ?thesis by auto
next
  case (NODE_CONDITION left operator right)
  from assms(2) obtain left_json right_json where
    l: "write_ast_to_json (Some left) (indent + 2) = Some left_json"
    and r: "write_ast_to_json (Some right) (indent + 2) = Some right_json"
    and doc: "doc = node_open indent (NODE_CONDITION left operator right) @
            data_open indent @ key ''left'' @ left_json @
            data_next indent @ key ''operator'' @ write_json_string operator (indent + 2) @
            data_next indent @ key ''right'' @ right_json @
            data_close indent @ node_close indent"
    unfolding NODE_CONDITION
    by (simp only: write_ast_to_json.simps case_option_Some_iff option.inject) blast
  have "sublist left_json doc" and "sublist right_json doc"
    unfolding doc by (fast intro: sublist_in_left sublist_in_right sublist_self)+
  with l r assms(1) NODE_CONDITION show ?thesis by auto
next
  case (NODE_EXPRESSION left_token operator right)
  from assms(2) obtain token_json right_json where
    r: "write_ast_to_json right (indent + 2) = Some right_json"
    and doc: "doc = node_open indent (NODE_EXPRESSION left_token operator right) @
            data_open indent @ key ''leftToken'' @ token_json @
            data_next indent @ key ''operator'' @
            (case operator of
               Some op \<Rightarrow> write_json_string op (indent + 2)
             | None \<Rightarrow> ''null'') @
            data_next indent @ key ''right'' @ right_json @
            data_close indent @ node_close indent"
    unfolding NODE_EXPRESSION
    by (simp only: write_ast_to_json.simps case_option_Some_iff option.inject) blast
  have "sublist right_json doc"
    unfolding doc by (fast intro: sublist_in_left sublist_in_right sublist_self)
  with r assms(1) NODE_EXPRESSION show ?thesis by (auto split: option.splits)
qed

lemma serialize_child_embed:
  assumes "c \<in> set (children t)" and "serialize_ast (Some t) = Some doc"
  shows "\<exists>d. serialize_ast (Some c) = Some d \<and> sublist d doc"
proof (cases t)
  case (NODE_PROGRAM block)
  from assms(2) obtain block_json where
    "serialize_ast (Some block) = Some block_json"
    and doc: "doc = node_prefix (NODE_PROGRAM block) @
            ''{\<newline>    '' @ key ''block'' @ block_json @ ''\<newline>  }'' @ node_suffix"
    unfolding NODE_PROGRAM
    by (simp only: serialize_ast.simps case_option_Some_iff option.inject) blast
  moreover have "sublist block_json doc"
    unfolding doc by (fast intro: sublist_in_left sublist_in_right sublist_self)
  ultimately show ?thesis using assms(1) NODE_PROGRAM by auto
next
  case (NODE_STATEMENT_BLOCK statements)
  from assms(2) obtain items_json where
    items: "serialize_statement_list_items statements = Some items_json"
    and doc: "doc = node_prefix (NODE_STATEMENT_BLOCK statements) @
            ''{\<newline>    '' @ key ''statements'' @ (''[\<newline>'' @ items_json @ ''  ]'') @
            ''\<newline>  }'' @ node_suffix"
    unfolding NODE_STATEMENT_BLOCK
    by (simp only: serialize_ast.simps serialize_statement_list.simps
          case_option_Some_iff option.inject) blast
  from assms(1) NODE_STATEMENT_BLOCK have "c \<in> set statements" by simp
  from serialize_items_embed [OF this items] obtain d where
    d: "serialize_ast (Some c) = Some d" and "sublist d items_json"
    by blast
  then have "sublist d doc"
    unfolding doc by (fast intro: sublist_in_left sublist_in_right)
  with d show ?thesis by blast
next
  case (NODE_VARIABLE_STATEMENT name)
  with assms(1) show ?thesis by simp
next
  case (NODE_IF_STATEMENT condition block else_block)
  from assms(2) obtain condition_json block_json else_json where
    c: "serialize_ast (Some condition) = Some condition_json"
    and b: "serialize_ast (Some block) = Some block_json"
    and e: "serialize_ast else_block = Some else_json"
    and doc: "doc = node_prefix (NODE_IF_STATEMENT condition block else_block) @
            ''{\<newline>    '' @ key ''condition'' @ condition_json @
            '',\<newline>    '' @ key ''block'' @ block_json @
            '',\<newline>    '' @ key ''elseBlock'' @ else_json @
            ''\<newline>  }'' @ node_suffix"
    unfolding NODE_IF_STATEMENT
    by (simp only: serialize_ast.simps case_option_Some_iff option.inject) blast
  have "sublist condition_json doc" and "sublist block_json doc" and "sublist else_json doc"
    unfolding doc by (fast intro: sublist_in_left sublist_in_right sublist_self)+
  with c b e assms(1) NODE_IF_STATEMENT show ?thesis
    by (auto split: option.splits)
next
  case (NODE_WHILE_STATEMENT condition block)
  from assms(2) obtain condition_json block_json where
    c: "serialize_ast (Some condition) = Some condition_json"
    and b: "serialize_ast (Some block) = Some block_json"
    and doc: "doc = node_prefix (NODE_WHILE_STATEMENT condition block) @
            ''{\<newline>    '' @ key ''condition'' @ condition_json @
            '',\<newline>    '' @ key ''block'' @ block_json @
            ''\<newline>  }'' @ node_suffix"
    unfolding NODE_WHILE_STATEMENT
    by (simp only: serialize_ast.simps case_option_Some_iff option.inject) blast
  have "sublist condition_json doc" and "sublist block_json doc"
    unfolding doc by (fast intro: sublist_in_left sublist_in_right sublist_self)+
  with c b assms(1) NODE_WHILE_STATEMENT show ?thesis by auto
next
  case (NODE_ASSIGNMENT_STATEMENT name v)
  from assms(2) obtain value_json where
    v: "serialize_ast (Some v) = Some value_json"
    and doc: "doc = node_prefix (NODE_ASSIGNMENT_STATEMENT name v) @
            ''{\<newline>    '' @ key ''identifier'' @ json_append_escaped_string name @
            '',\<newline>    '' @ key ''value'' @ value_json @
            ''\<newline>  }'' @ node_suffix"
    unfolding NODE_ASSIGNMENT_STATEMENT
    by (simp only: serialize_ast.simps case_option_Some_iff option.inject) blast
  have "sublist value_json doc"
    unfolding doc by (fast intro: sublist_in_left sublist_in_right sublist_self)
  with v assms(1) NODE_ASSIGNMENT_STATEMENT show ?thesis by auto
next
  case (NODE_CONDITION left operator right)
  from assms(2) obtain left_json right_json where
    l: "serialize_ast (Some left) = Some left_json"
    and r: "serialize_ast (Some right) = Some right_json"
    and doc: "doc = node_prefix (NODE_CONDITION left operator right) @
            ''{\<newline>    '' @ key ''left'' @ left_json @
            '',\<newline>    '' @ key ''operator'' @ json_append_escaped_string operator @
            '',\<newline>    '' @ key ''right'' @ right_json @
            ''\<newline>  }'' @ node_suffix"
    unfolding NODE_CONDITION
    by (simp only: serialize_ast.simps case_option_Some_iff option.inject) blast
  have "sublist left_json doc" and "sublist right_json doc"
    unfolding doc by (fast intro: sublist_in_left sublist_in_right sublist_self)+
  with l r assms(1) NODE_CONDITION show ?thesis by auto
next
  case (NODE_EXPRESSION left_token operator right)
  from assms(2) obtain token_json right_json where
    r: "serialize_ast right = Some right_json"
    and doc: "doc = node_prefix (NODE_EXPRESSION left_token operator right) @
            ''{\<newline>    '' @ key ''leftToken'' @ token_json @
            '',\<newline>    '' @ key ''operator'' @
            (case operator of
               Some op \<Rightarrow> json_append_escaped_string op
             | None \<Rightarrow> ''null'') @
            '',\<newline>    '' @ key ''right'' @ right_json @
            ''\<newline>  }'' @ node_suffix"
    unfolding NODE_EXPRESSION
    by (simp only: serialize_ast.simps case_option_Some_iff option.inject) blast
  have "sublist right_json doc"
    unfolding doc by (fast intro: sublist_in_left sublist_in_right sublist_self)
  with r assms(1) NODE_EXPRESSION show ?thesis by (auto split: option.splits)
qed

text \<open>The document of a tree contains the document of each of its nodes.\<close>

lemma write_subnode_embed:
  "node \<in> set (subnodes tree) \<Longrightarrow> write_ast_to_json (Some tree) indent = Some doc \<Longrightarrow>
   \<exists>i d. write_ast_to_json (Some node) i = Some d \<and> sublist d doc"
proof (induction tree arbitrary: indent doc rule: measure_induct_rule [where f = size])
  case (less tree)
  from less.prems(1) have "node = tree \<or> (\<exists>c \<in> set (children tree). node \<in> set (subnodes c))"
    by (subst (asm) subnodes_children) auto
  then show ?case
  proof
    assume "node = tree"
    with less.prems(2) show ?thesis by (auto intro: sublist_self)
  next
    assume "\<exists>c \<in> set (children tree). node \<in> set (subnodes c)"
    then obtain c where c: "c \<in> set (children tree)" and n: "node \<in> set (subnodes c)"
      by blast
    from write_child_embed [OF c less.prems(2)] obtain j dc where
      dc: "write_ast_to_json (Some c) j = Some dc" and outer: "sublist dc doc"
      by blast
    from less.IH [OF size_children [OF c] n dc] obtain i d where
      "write_ast_to_json (Some node) i = Some d" and "sublist d dc"
      by blast
    with outer show ?thesis by (blast intro: sublist_trans)
  qed
qed

lemma serialize_subnode_embed:
  "node \<in> set (subnodes tree) \<Longrightarrow> serialize_ast (Some tree) = Some doc \<Longrightarrow>
   \<exists>d. serialize_ast (Some node) = Some d \<and> sublist d doc"
proof (induction tree arbitrary: doc rule: measure_induct_rule [where f = size])
  case (less tree)
  from less.prems(1) have "node = tree \<or> (\<exists>c \<in> set (children tree). node \<in> set (subnodes c))"
    by (subst (asm) subnodes_children) auto
  then show ?case
  proof
    assume "node = tree"
    with less.prems(2) show ?thesis by (auto intro: sublist_self)
  next
    assume "\<exists>c \<in> set (children tree). node \<in> set (subnodes c)"
    then obtain c where c: "c \<in> set (children tree)" and n: "node \<in> set (subnodes c)"
      by blast
    from serialize_child_embed [OF c less.prems(2)] obtain dc where
      dc: "serialize_ast (Some c) = Some dc" and outer: "sublist dc doc"
      by blast
    from less.IH [OF size_children [OF c] n dc] obtain d where
      "serialize_ast (Some node) = Some d" and "sublist d dc"
      by blast
    with outer show ?thesis by (blast intro: sublist_trans)
  qed
qed

text \<open>
  A tree all of whose expression tokens have a live \<open>value\<close> pointer, as the trees built by
  \<open>parse_expression\<close> from NUMBER, STRING and IDENTIFIER tokens of \<open>tokenize\<close> have. Both
  serializers return a document for such a tree.
\<close>

definition live_token :: "ASTNode \<Rightarrow> bool" where
  "live_token node \<longleftrightarrow>
     (case node of NODE_EXPRESSION left_token _ _ \<Rightarrow> value left_token \<noteq> None | _ \<Rightarrow> True)"

definition tokens_live :: "ASTNode \<Rightarrow> bool" where
  "tokens_live tree \<longleftrightarrow> list_all live_token (subnodes tree)"

lemma tokens_live_child:
  "tokens_live t \<Longrightarrow> c \<in> set (children t) \<Longrightarrow> tokens_live c"
  unfolding tokens_live_def
  by (subst (asm) subnodes_children) (auto simp: list_all_iff)

lemma tokens_live_root: "tokens_live t \<Longrightarrow> live_token t"
  unfolding tokens_live_def by (subst (asm) subnodes_children) simp

lemma write_items_total:
  "(\<And>x i. x \<in> set xs \<Longrightarrow> \<exists>d. write_ast_to_json (Some x) i = Some d) \<Longrightarrow>
   \<exists>d. write_statement_list_items xs indent = Some d"
proof (induction xs)
  case Nil
  show ?case by (simp add: write_statement_list_items.simps)
next
  case (Cons a xs)
  from Cons.prems [of a "indent + 1"] obtain d1 where
    "write_ast_to_json (Some a) (indent + 1) = Some d1" by auto
  moreover from Cons.IH Cons.prems obtain d2 where
    "write_statement_list_items xs indent = Some d2" by auto
  ultimately show ?case by (simp add: write_statement_list_items.simps)
qed

lemma serialize_items_total:
  "(\<And>x. x \<in> set xs \<Longrightarrow> \<exists>d. serialize_ast (Some x) = Some d) \<Longrightarrow>
   \<exists>d. serialize_statement_list_items xs = Some d"
proof (induction xs)
  case Nil
  show ?case by (simp add: serialize_statement_list_items.simps)
next
  case (Cons a xs)
  from Cons.prems [of a] obtain d1 where "serialize_ast (Some a) = Some d1" by auto
  moreover from Cons.IH Cons.prems obtain d2 where
    "serialize_statement_list_items xs = Some d2" by auto
  ultimately show ?case by (simp add: serialize_statement_list_items.simps)
qed

lemma write_ast_total:
  "tokens_live tree \<Longrightarrow> \<exists>doc. write_ast_to_json (Some tree) indent = Some doc"
proof (induction tree arbitrary: indent rule: measure_induct_rule [where f = size])
  case (less tree)
  have child: "\<exists>d. write_ast_to_json (Some c) i = Some d" if "c \<in> set (children tree)" for c i
    using less.IH [OF size_children [OF that] tokens_live_child [OF less.prems that]] .
  show ?case
  proof (cases tree)
    case (NODE_PROGRAM block)
    with child [of block "indent + 2"] show ?thesis
      by (auto simp: write_ast_to_json.simps)
  next
    case (NODE_STATEMENT_BLOCK statements)
    with child have "\<And>x i. x \<in> set statements \<Longrightarrow> \<exists>d. write_ast_to_json (Some x) i = Some d"
      by simp
    from write_items_total [OF this, of statements "indent + 2"] NODE_STATEMENT_BLOCK
    show ?thesis
      by (auto simp: write_ast_to_json.simps write_statement_list_to_json.simps)
  next
    case (NODE_VARIABLE_STATEMENT name)
    then show ?thesis by (simp add: write_ast_to_json.simps)
  next
    case (NODE_IF_STATEMENT condition block else_block)
    with child [of condition "indent + 2"] child [of block "indent + 2"]
    obtain d1 d2 where "write_ast_to_json (Some condition) (indent + 2) = Some d1"
      "write_ast_to_json (Some block) (indent + 2) = Some d2" by auto
    moreover have "\<exists>d. write_ast_to_json else_block (indent + 2) = Some d"
    proof (cases else_block)
      case None
      then show ?thesis by (simp add: write_ast_to_json.simps)
    next
      case (Some e)
      with NODE_IF_STATEMENT child [of e "indent + 2"] show ?thesis by simp
    qed
    ultimately show ?thesis
      using NODE_IF_STATEMENT by (auto simp: write_ast_to_json.simps)
  next
    case (NODE_WHILE_STATEMENT condition block)
    with child [of condition "indent + 2"] child [of block "indent + 2"] show ?thesis
      by (auto simp: write_ast_to_json.simps)
  next
    case (NODE_ASSIGNMENT_STATEMENT name v)
    with child [of v "indent + 2"] show ?thesis
      by (auto simp: write_ast_to_json.simps)
  next
    case (NODE_CONDITION left operator right)
    with child [of left "indent + 2"] child [of right "indent + 2"] show ?thesis
      by (auto simp: write_ast_to_json.simps)
  next
    case (NODE_EXPRESSION left_token operator right)
    from tokens_live_root [OF less.prems] NODE_EXPRESSION
    obtain v where "value left_token = Some v"
      by (auto simp: live_token_def)
    then have "\<exists>d. write_token_to_json left_token (indent + 2) = Some d"
      by (simp add: write_token_to_json_def)
    moreover have "\<exists>d. write_ast_to_json right (indent + 2) = Some d"
    proof (cases right)
      case None
      then show ?thesis by (simp add: write_ast_to_json.simps)
    next
      case (Some r)
      with NODE_EXPRESSION child [of r "indent + 2"] show ?thesis by simp
    qed
    ultimately show ?thesis
      using NODE_EXPRESSION by (auto simp: write_ast_to_json.simps)
  qed
qed

lemma serialize_ast_total:
  "tokens_live tree \<Longrightarrow> \<exists>doc. serialize_ast (Some tree) = Some doc"
proof (induction tree rule: measure_induct_rule [where f = size])
  case (less tree)
  have child: "\<exists>d. serialize_ast (Some c) = Some d" if "c \<in> set (children tree)" for c
    using less.IH [OF size_children [OF that] tokens_live_child [OF less.prems that]] .
  show ?case
  proof (cases tree)
    case (NODE_PROGRAM block)
    with child [of block] show ?thesis
      by (auto simp: serialize_ast.simps)
  next
    case (NODE_STATEMENT_BLOCK statements)
    with child have "\<And>x. x \<in> set statements \<Longrightarrow> \<exists>d. serialize_ast (Some x) = Some d"
      by simp
    from serialize_items_total [OF this, of statements] NODE_STATEMENT_BLOCK
    show ?thesis
      by (auto simp: serialize_ast.simps serialize_statement_list.simps)
  next
    case (NODE_VARIABLE_STATEMENT name)
    then show ?thesis by (simp add: serialize_ast.simps)
  next
    case (NODE_IF_STATEMENT condition block else_block)
    with child [of condition] child [of block]
    obtain d1 d2 where "serialize_ast (Some condition) = Some d1"
      "serialize_ast (Some block) = Some d2" by auto
    moreover have "\<exists>d. serialize_ast else_block = Some d"
    proof (cases else_block)
      case None
      then show ?thesis by (simp add: serialize_ast.simps)
    next
      case (Some e)
      with NODE_IF_STATEMENT child [of e] show ?thesis by simp
    qed
    ultimately show ?thesis
      using NODE_IF_STATEMENT by (auto simp: serialize_ast.simps)
  next
    case (NODE_WHILE_STATEMENT condition block)
    with child [of condition] child [of block] show ?thesis
      by (auto simp: serialize_ast.simps)
  next
    case (NODE_ASSIGNMENT_STATEMENT name v)
    with child [of v] show ?thesis
      by (auto simp: serialize_ast.simps)
  next
    case (NODE_CONDITION left operator right)
    with child [of left] child [of right] show ?thesis
      by (auto simp: serialize_ast.simps)
  next
    case (NODE_EXPRESSION left_token operator right)
    from tokens_live_root [OF less.prems] NODE_EXPRESSION
    obtain v where "value left_token = Some v"
      by (auto simp: live_token_def)
    then have "\<exists>d. serialize_token left_token = Some d"
      by (simp add: serialize_token_def)
    moreover have "\<exists>d. serialize_ast right = Some d"
    proof (cases right)
      case None
      then show ?thesis by (simp add: serialize_ast.simps)
    next
      case (Some r)
      with NODE_EXPRESSION child [of r] show ?thesis by simp
    qed
    ultimately show ?thesis
      using NODE_EXPRESSION by (auto simp: serialize_ast.simps)
  qed
qed

subsection \<open>The trees built by the parser have live expression tokens\<close>

definition operands_live :: "Token list \<Rightarrow> bool" where
  "operands_live ts \<longleftrightarrow> (\<forall>t\<in>set ts. is_operand t \<longrightarrow> value t \<noteq> None)"

lemma operands_live_add_token:
  "operands_live (add_token ts ty v ln col) \<longleftrightarrow>
     operands_live ts \<and> (ty = TOKEN_NUMBER \<or> ty = TOKEN_STRING \<or> ty = TOKEN_IDENTIFIER \<longrightarrow> v \<noteq> None)"
  by (auto simp: operands_live_def add_token_def is_operand_def)

lemma separator_type_not_operand:
  "separator_type c \<noteq> TOKEN_NUMBER \<and> separator_type c \<noteq> TOKEN_STRING
   \<and> separator_type c \<noteq> TOKEN_IDENTIFIER"
  by (simp add: separator_type_def)

lemma operator_type_not_operand:
  "operator_type c \<noteq> TOKEN_NUMBER \<and> operator_type c \<noteq> TOKEN_STRING
   \<and> operator_type c \<noteq> TOKEN_IDENTIFIER"
  by (simp add: operator_type_def)

lemma searching_step_operands_live:
  "searching_step c b s = Inr s' \<Longrightarrow> operands_live (toks s) \<Longrightarrow> operands_live (toks s')"
  unfolding searching_step_def Let_def
  by (clarsimp simp: operands_live_add_token separator_type_not_operand
        operator_type_not_operand split: if_splits)

lemma tokenize_step_operands_live:
  "tokenize_step input s = Inr s' \<Longrightarrow> operands_live (toks s) \<Longrightarrow> operands_live (toks s')"
  by (cases "state s")
     (auto simp: tokenize_step_def identifier_step_def string_step_def number_step_def Let_def
           operands_live_add_token dest: searching_step_operands_live split: if_splits)

lemma tokenize_loop_operands_live:
  "tokenize_loop input s = Inr s' \<Longrightarrow> operands_live (toks s) \<Longrightarrow> operands_live (toks s')"
proof (induction input s rule: tokenize_loop.induct)
  case (1 input s)
  show ?case
  proof (cases "pos s < input_len input")
    case False
    with "1.prems" show ?thesis by (simp add: tokenize_loop.simps)
  next
    case True
    with "1.prems"(1) obtain s1 where step: "tokenize_step input s = Inr s1"
      and rest: "tokenize_loop input s1 = Inr s'"
      by (subst (asm) tokenize_loop.simps) (auto split: sum.splits)
    from step "1.prems"(2) have "operands_live (toks s1)" by (rule tokenize_step_operands_live)
    with "1.IH" True step rest show ?thesis by simp
  qed
qed

lemma tokenize_operands_live:
  assumes "tokenize input = Inr ts"
  shows "operands_live ts \<and> ts \<noteq> []"
proof -
  from assms obtain s where loop: "tokenize_loop input initial_lexer = Inr s"
    and ts: "ts = add_token (toks s) TOKEN_EOF (Some ''EOF'') (current_line s) (current_column s)"
    by (auto simp: tokenize_def split: sum.splits)
  have "operands_live (toks initial_lexer)" by (simp add: initial_lexer_def operands_live_def)
  with loop have "operands_live (toks s)" by (rule tokenize_loop_operands_live)
  then show ?thesis
    unfolding ts by (simp add: operands_live_add_token) (simp add: add_token_def)
qed

definition parser_ok :: "Parser \<Rightarrow> bool" where
  "parser_ok p \<longleftrightarrow>
     token_count p = length (tokens p) \<and> current_token_index p < token_count p
   \<and> current_token p = tokens p ! current_token_index p"

lemma next_token_ok:
  "next_token p = Inr p' \<Longrightarrow> parser_ok p \<Longrightarrow> parser_ok p' \<and> tokens p' = tokens p"
  by (auto simp: next_token_def parser_ok_def Let_def split: if_splits)

lemma accept_ok:
  "accept p ty = Inr (b, p') \<Longrightarrow> parser_ok p \<Longrightarrow> parser_ok p' \<and> tokens p' = tokens p"
  by (auto simp: accept_def split: if_splits sum.splits dest: next_token_ok)

lemma accept_True_type: "accept p ty = Inr (True, p') \<Longrightarrow> type (current_token p) = ty"
  by (auto simp: accept_def split: if_splits sum.splits)

lemma expect_ok:
  "expect p ty = Inr p' \<Longrightarrow> parser_ok p \<Longrightarrow> parser_ok p' \<and> tokens p' = tokens p"
  by (auto simp: expect_def split: if_splits sum.splits prod.splits dest: accept_ok)

lemma current_token_live:
  "parser_ok p \<Longrightarrow> operands_live (tokens p) \<Longrightarrow> is_operand (current_token p) \<Longrightarrow>
   value (current_token p) \<noteq> None"
  by (auto simp: parser_ok_def operands_live_def)

lemma tokens_live_simps:
  "tokens_live (NODE_PROGRAM block) \<longleftrightarrow> tokens_live block"
  "tokens_live (NODE_STATEMENT_BLOCK statements) \<longleftrightarrow> (\<forall>x\<in>set statements. tokens_live x)"
  "tokens_live (NODE_VARIABLE_STATEMENT name)"
  "tokens_live (NODE_IF_STATEMENT condition block else_block) \<longleftrightarrow>
     tokens_live condition \<and> tokens_live block
   \<and> (case else_block of None \<Rightarrow> True | Some e \<Rightarrow> tokens_live e)"
  "tokens_live (NODE_WHILE_STATEMENT condition block) \<longleftrightarrow>
     tokens_live condition \<and> tokens_live block"
  "tokens_live (NODE_ASSIGNMENT_STATEMENT name v) \<longleftrightarrow> tokens_live v"
  "tokens_live (NODE_CONDITION left operator right) \<longleftrightarrow> tokens_live left \<and> tokens_live right"
  "tokens_live (NODE_EXPRESSION left_token op right_operand) \<longleftrightarrow>
     value left_token \<noteq> None
   \<and> (case right_operand of None \<Rightarrow> True | Some r \<Rightarrow> tokens_live r)"
  by (auto simp: tokens_live_def live_token_def list_all_iff split: option.splits)

lemma parse_expression_operand:
  assumes "parse_expression p = Inr (node, p')"
  shows "is_operand (current_token p)"
proof (rule ccontr)
  assume "\<not> is_operand (current_token p)"
  then have "accept p TOKEN_NUMBER = Inr (False, p)" "accept p TOKEN_STRING = Inr (False, p)"
    "accept p TOKEN_IDENTIFIER = Inr (False, p)"
    by (simp_all add: accept_def is_operand_def)
  then have "parse_expression p = Inl (parser_error p ''expression'')"
    by (subst parse_expression.simps) (simp add: Let_def)
  with assms show False by simp
qed

lemma parse_expression_end_after_operand:
  assumes "is_operand (current_token p)"
      and "\<not> current_token_index p + 1 < token_count p"
  shows "parse_expression p = Inl UnexpectedEndOfInput"
  using assms
  by (subst parse_expression.simps)
     (auto simp: is_operand_def accept_def next_token_def)

lemma parse_expression_end_after_operator:
  assumes "is_operand (current_token p)"
      and "is_arithmetic (tokens p ! (current_token_index p + 1))"
      and "current_token_index p + 1 < token_count p"
      and "\<not> current_token_index p + 2 < token_count p"
  shows "parse_expression p = Inl UnexpectedEndOfInput"
  using assms
  by (subst parse_expression.simps)
     (auto simp: is_operand_def is_arithmetic_def accept_def next_token_def)

definition parsing_tokens :: "Token list \<Rightarrow> Parser \<Rightarrow> bool" where
  "parsing_tokens ts p \<longleftrightarrow> parser_ok p \<and> tokens p = ts"

lemma parse_expression_live:
  assumes "operands_live ts"
  shows "parse_expression p = Inr (node, p') \<Longrightarrow> parsing_tokens ts p \<Longrightarrow>
         parsing_tokens ts p' \<and> tokens_live node"
proof (induction "token_count p - current_token_index p" arbitrary: p node p' rule: less_induct)
  case less
  note res = less.prems(1) and inv = less.prems(2)
  from inv have ok: "parser_ok p" and ts: "tokens p = ts"
    by (simp_all add: parsing_tokens_def)
  from res have operand: "is_operand (current_token p)" by (rule parse_expression_operand)
  with ok ts assms have live: "value (current_token p) \<noteq> None"
    by (simp add: current_token_live)
  let ?i = "current_token_index p"
  from operand res have i1: "?i + 1 < token_count p"
    using parse_expression_end_after_operand [of p] by auto
  show ?case
  proof (cases "is_arithmetic (tokens p ! (?i + 1))")
    case False
    from parse_expression_last [OF operand False i1] res
    have node: "node = NODE_EXPRESSION (current_token p) None None"
      and p': "p' = p\<lparr>current_token_index := ?i + 1, current_token := tokens p ! (?i + 1)\<rparr>"
      by simp_all
    from ok i1 ts have "parsing_tokens ts p'"
      unfolding p' by (simp add: parsing_tokens_def parser_ok_def)
    with live node show ?thesis by (simp add: tokens_live_simps)
  next
    case True
    from operand True i1 res have i2: "?i + 2 < token_count p"
      using parse_expression_end_after_operator [of p] by auto
    let ?q = "p\<lparr>current_token_index := ?i + 2, current_token := tokens p ! (?i + 2)\<rparr>"
    from parse_expression_chain [OF operand True i2] res
    obtain r where r: "parse_expression ?q = Inr (r, p')"
      and node: "node = NODE_EXPRESSION (current_token p)
                   (Some (operator_symbol (type (tokens p ! (?i + 1))))) (Some r)"
      by (auto simp: with_right_def split: sum.splits)
    from ok i2 ts have q: "parsing_tokens ts ?q"
      by (simp add: parsing_tokens_def parser_ok_def)
    from i2 have "token_count ?q - current_token_index ?q < token_count p - ?i" by simp
    from less.hyps [OF this r q] live node show ?thesis
      by (simp add: tokens_live_simps)
  qed
qed

lemma accept_tokens:
  "accept p ty = Inr (b, p') \<Longrightarrow> parsing_tokens ts p \<Longrightarrow> parsing_tokens ts p'"
  by (auto simp: parsing_tokens_def dest: accept_ok)

lemma expect_tokens:
  "expect p ty = Inr p' \<Longrightarrow> parsing_tokens ts p \<Longrightarrow> parsing_tokens ts p'"
  by (auto simp: parsing_tokens_def dest: expect_ok)

lemma parse_condition_live:
  assumes "operands_live ts" and "parse_condition p = Inr (node, p')" and "parsing_tokens ts p"
  shows "parsing_tokens ts p' \<and> tokens_live node"
proof -
  from assms(2) obtain l p1 where l: "parse_expression p = Inr (l, p1)"
    by (auto simp: parse_condition_def split: sum.splits prod.splits)
  from parse_expression_live [OF assms(1) l assms(3)]
  have p1: "parsing_tokens ts p1" and ll: "tokens_live l" by simp_all
  have "\<exists>q r operator. parsing_tokens ts q \<and> parse_expression q = Inr (r, p')
          \<and> node = NODE_CONDITION l operator r"
  proof (cases "accept p1 TOKEN_GREATER")
    case (Inl e)
    with assms(2) l show ?thesis by (simp add: parse_condition_def)
  next
    case greater: (Inr x1)
    obtain b1 q1 where x1: "x1 = (b1, q1)" by (cases x1)
    from greater x1 p1 have q1: "parsing_tokens ts q1" by (auto dest: accept_tokens)
    show ?thesis
    proof (cases b1)
      case True
      with assms(2) l greater x1 q1 show ?thesis
        by (auto simp: parse_condition_def split: sum.splits)
    next
      case not_greater: False
      show ?thesis
      proof (cases "accept q1 TOKEN_LESS")
        case (Inl e)
        with assms(2) l greater x1 not_greater show ?thesis by (simp add: parse_condition_def)
      next
        case less: (Inr x2)
        obtain b2 q2 where x2: "x2 = (b2, q2)" by (cases x2)
        from less x2 q1 have q2: "parsing_tokens ts q2" by (auto dest: accept_tokens)
        show ?thesis
        proof (cases b2)
          case True
          with assms(2) l greater x1 not_greater less x2 q2 show ?thesis
            by (auto simp: parse_condition_def split: sum.splits)
        next
          case not_less: False
          show ?thesis
          proof (cases "accept q2 TOKEN_EQUAL")
            case (Inl e)
            with assms(2) l greater x1 not_greater less x2 not_less show ?thesis
              by (simp add: parse_condition_def)
          next
            case equal: (Inr x3)
            obtain b3 q3 where x3: "x3 = (b3, q3)" by (cases x3)
            from equal x3 q2 have q3: "parsing_tokens ts q3" by (auto dest: accept_tokens)
            from assms(2) l greater x1 not_greater less x2 not_less equal x3 q3 show ?thesis
              by (auto simp: parse_condition_def split: sum.splits if_splits)
          qed
        qed
      qed
    qed
  qed
  then obtain q r operator where
    q: "parsing_tokens ts q" and r: "parse_expression q = Inr (r, p')"
    and node: "node = NODE_CONDITION l operator r"
    by blast
  from parse_expression_live [OF assms(1) r q] ll node show ?thesis
    by (simp add: tokens_live_simps)
qed

lemma bind_Some_Inr:
  "bind m f = Some (Inr y) \<longleftrightarrow> (\<exists>x. m = Some (Inr x) \<and> f x = Some (Inr y))"
  by (auto simp: bind_def split: option.splits sum.splits)

lemma parse_statement_block_live:
  assumes loop: "\<And>p nodes p'. statement_loop n p = Some (Inr (nodes, p')) \<Longrightarrow>
                   parsing_tokens ts p \<Longrightarrow>
                   parsing_tokens ts p' \<and> (\<forall>x\<in>set nodes. tokens_live x)"
      and "parse_statement_block n p = Some (Inr (node, p'))" and "parsing_tokens ts p"
  shows "parsing_tokens ts p' \<and> tokens_live node"
proof -
  from assms(2) obtain nodes where "statement_loop n p = Some (Inr (nodes, p'))"
    and "node = NODE_STATEMENT_BLOCK nodes"
    by (auto simp: bind_Some_Inr)
  with loop [OF this(1) assms(3)] show ?thesis
    by (simp add: tokens_live_simps)
qed

lemma parse_statement_live:
  assumes live: "operands_live ts"
      and block: "\<And>p node p'. parse_statement_block n p = Some (Inr (node, p')) \<Longrightarrow>
                   parsing_tokens ts p \<Longrightarrow> parsing_tokens ts p' \<and> tokens_live node"
      and res: "parse_statement n p = Some (Inr (node, p'))" and inv: "parsing_tokens ts p"
  shows "parsing_tokens ts p' \<and> tokens_live node"
proof -
  note cond = parse_condition_live [OF live]
  note expr = parse_expression_live [OF live]
  from res obtain is_var p1 where var: "accept p TOKEN_VAR = Inr (is_var, p1)"
    by (subst (asm) parse_statement.simps) (auto simp: bind_Some_Inr)
  from var inv have p1: "parsing_tokens ts p1" by (rule accept_tokens)
  show ?thesis
  proof (cases is_var)
    case True
    with res var obtain name where "expect p1 TOKEN_IDENTIFIER = Inr p'"
      and "node = NODE_VARIABLE_STATEMENT name"
      by (subst (asm) parse_statement.simps)
         (auto simp: bind_Some_Inr split: option.splits)
    with p1 show ?thesis
      by (auto simp: tokens_live_simps dest: expect_tokens)
  next
    case not_var: False
    from res var not_var obtain is_if p2 where if_tok: "accept p1 TOKEN_IF = Inr (is_if, p2)"
      by (subst (asm) parse_statement.simps) (auto simp: bind_Some_Inr)
    from if_tok p1 have p2: "parsing_tokens ts p2" by (rule accept_tokens)
    show ?thesis
    proof (cases is_if)
      case True
      from res var not_var if_tok True obtain p3 c p4 p5 p6 b p7 p8 has_else p9 where
        steps: "expect p2 TOKEN_LPAREN = Inr p3" "parse_condition p3 = Inr (c, p4)"
          "expect p4 TOKEN_RPAREN = Inr p5" "expect p5 TOKEN_LBRACE = Inr p6"
          "parse_statement_block n p6 = Some (Inr (b, p7))"
          "expect p7 TOKEN_RBRACE = Inr p8" "accept p8 TOKEN_ELSE = Inr (has_else, p9)"
        and tail: "(if has_else then
             bind (Some (expect p9 TOKEN_LBRACE)) (\<lambda>p10.
             bind (parse_statement_block n p10) (\<lambda>(else_block_node, p11).
             bind (Some (expect p11 TOKEN_RBRACE)) (\<lambda>p12.
             Some (Inr (NODE_IF_STATEMENT c b (Some else_block_node), p12)))))
           else Some (Inr (NODE_IF_STATEMENT c b None, p9))) = Some (Inr (node, p'))"
        by (subst (asm) parse_statement.simps) (auto simp: bind_Some_Inr)
      from steps(1) p2 have p3: "parsing_tokens ts p3" by (rule expect_tokens)
      from cond [OF steps(2) p3] have p4: "parsing_tokens ts p4" and c: "tokens_live c"
        by simp_all
      from steps(3) p4 have p5: "parsing_tokens ts p5" by (rule expect_tokens)
      from steps(4) p5 have p6: "parsing_tokens ts p6" by (rule expect_tokens)
      from block [OF steps(5) p6] have p7: "parsing_tokens ts p7" and b: "tokens_live b"
        by simp_all
      from steps(6) p7 have p8: "parsing_tokens ts p8" by (rule expect_tokens)
      from steps(7) p8 have p9: "parsing_tokens ts p9" by (rule accept_tokens)
      show ?thesis
      proof (cases has_else)
        case False
        with tail p9 c b show ?thesis by (auto simp: tokens_live_simps)
      next
        case True
        with tail obtain p10 e p11 where
          more: "expect p9 TOKEN_LBRACE = Inr p10"
            "parse_statement_block n p10 = Some (Inr (e, p11))"
            "expect p11 TOKEN_RBRACE = Inr p'"
          and node: "node = NODE_IF_STATEMENT c b (Some e)"
          by (auto simp: bind_Some_Inr)
        from more(1) p9 have p10: "parsing_tokens ts p10" by (rule expect_tokens)
        from block [OF more(2) p10] have p11: "parsing_tokens ts p11" and e: "tokens_live e"
          by simp_all
        from more(3) p11 have "parsing_tokens ts p'" by (rule expect_tokens)
        with node c b e show ?thesis by (simp add: tokens_live_simps)
      qed
    next
      case not_if: False
      from res var not_var if_tok not_if obtain is_while p3 where
        while_tok: "accept p2 TOKEN_WHILE = Inr (is_while, p3)"
        by (subst (asm) parse_statement.simps) (auto simp: bind_Some_Inr)
      from while_tok p2 have p3: "parsing_tokens ts p3" by (rule accept_tokens)
      show ?thesis
      proof (cases is_while)
        case True
        from res var not_var if_tok not_if while_tok True obtain p4 c p5 p6 p7 b p8 where
          steps: "expect p3 TOKEN_LPAREN = Inr p4" "parse_condition p4 = Inr (c, p5)"
            "expect p5 TOKEN_RPAREN = Inr p6" "expect p6 TOKEN_LBRACE = Inr p7"
            "parse_statement_block n p7 = Some (Inr (b, p8))"
            "expect p8 TOKEN_RBRACE = Inr p'"
          and node: "node = NODE_WHILE_STATEMENT c b"
          by (subst (asm) parse_statement.simps) (auto simp: bind_Some_Inr)
        from steps(1) p3 have p4: "parsing_tokens ts p4" by (rule expect_tokens)
        from cond [OF steps(2) p4] have p5: "parsing_tokens ts p5" and c: "tokens_live c"
          by simp_all
        from steps(3) p5 have p6: "parsing_tokens ts p6" by (rule expect_tokens)
        from steps(4) p6 have p7: "parsing_tokens ts p7" by (rule expect_tokens)
        from block [OF steps(5) p7] have p8: "parsing_tokens ts p8" and b: "tokens_live b"
          by simp_all
        from steps(6) p8 have "parsing_tokens ts p'" by (rule expect_tokens)
        with node c b show ?thesis by (simp add: tokens_live_simps)
      next
        case not_while: False
        from res var not_var if_tok not_if while_tok not_while
        obtain name b4 p4 p5 v where
          steps: "accept p3 TOKEN_IDENTIFIER = Inr (b4, p4)" "expect p4 TOKEN_EQUAL = Inr p5"
            "parse_expression p5 = Inr (v, p')"
          and node: "node = NODE_ASSIGNMENT_STATEMENT name v"
          by (subst (asm) parse_statement.simps)
             (auto simp: bind_Some_Inr split: if_splits option.splits)
        from steps(1) p3 have p4: "parsing_tokens ts p4" by (rule accept_tokens)
        from steps(2) p4 have p5: "parsing_tokens ts p5" by (rule expect_tokens)
        from expr [OF steps(3) p5] node show ?thesis by (simp add: tokens_live_simps)
      qed
    qed
  qed
qed

lemma statement_loop_live:
  assumes live: "operands_live ts"
  shows "statement_loop n p = Some (Inr (nodes, p')) \<Longrightarrow> parsing_tokens ts p \<Longrightarrow>
         parsing_tokens ts p' \<and> (\<forall>x\<in>set nodes. tokens_live x)"
proof (induction n arbitrary: p nodes p')
  case 0
  then show ?case by simp
next
  case (Suc n)
  have block: "parsing_tokens ts q' \<and> tokens_live node"
    if "parse_statement_block n q = Some (Inr (node, q'))" "parsing_tokens ts q" for q node q'
    using Suc.IH that by (rule parse_statement_block_live)
  from Suc.prems(1) obtain statement p1 more p2 where
    first: "parse_statement n p = Some (Inr (statement, p1))"
    and semi: "accept p1 TOKEN_SEMICOLON = Inr (more, p2)"
    and tail: "(if more then
                  bind (statement_loop n p2) (\<lambda>(statements, p3).
                    Some (Inr (statement # statements, p3)))
                else Some (Inr ([statement], p2))) = Some (Inr (nodes, p'))"
    by (auto simp: bind_Some_Inr)
  from parse_statement_live [OF live block first Suc.prems(2)]
  have p1: "parsing_tokens ts p1" and st: "tokens_live statement" by simp_all
  from semi p1 have p2: "parsing_tokens ts p2" by (rule accept_tokens)
  show ?case
  proof (cases more)
    case False
    with tail p2 st show ?thesis by auto
  next
    case True
    with tail obtain statements where
      rest: "statement_loop n p2 = Some (Inr (statements, p'))"
      and nodes: "nodes = statement # statements"
      by (auto simp: bind_Some_Inr)
    from Suc.IH [OF rest p2] st nodes show ?thesis by simp
  qed
qed

text \<open>Every tree that the program builds from a source text has live expression tokens.\<close>

lemma generate_tree_live:
  assumes "generate_tree input = Some (Inr tree)"
  shows "tokens_live tree"
proof -
  from assms obtain ts where ts: "tokenize input = Inr ts" and parsed: "parse ts = Some (Inr tree)"
    by (auto simp: generate_tree_def split: sum.splits option.splits)
  from tokenize_operands_live [OF ts] have live: "operands_live ts" and ne: "ts \<noteq> []"
    by simp_all
  let ?p = "\<lparr>tokens = ts, token_count = length ts,
             current_token_index = 0, current_token = ts ! 0\<rparr>"
  from ne have start: "parsing_tokens ts ?p"
    by (simp add: parsing_tokens_def parser_ok_def)
  from parsed obtain block p' where
    "parse_statement_block (length ts) ?p = Some (Inr (block, p'))"
    and tree: "tree = NODE_PROGRAM block"
    by (auto simp: parse_def parse_program_def bind_Some_Inr split: if_splits)
  from parse_statement_block_live [OF statement_loop_live [OF live] this(1) start] tree
  show ?thesis by (simp add: tokens_live_simps)
qed

text \<open>Both programs have a defined document for every source text that parses.\<close>

lemma documents_defined_for_parsed_text:
  assumes "generate_tree input = Some (Inr tree)"
  shows "(\<exists>doc. parse_file input = Some (Inr doc)) \<and> (\<exists>doc. generateAst input = Some (Inr doc))"
proof -
  from assms have live: "tokens_live tree" by (rule generate_tree_live)
  from write_ast_total [OF live, of 0] serialize_ast_total [OF live] assms
  show ?thesis
    by (auto simp: parse_file_def generateAst_def)
qed

subsection \<open>Absent fields\<close>

text \<open>The text that a node with an absent field contributes, character by character.\<close>

lemma write_if_without_else:
  assumes "write_ast_to_json (Some (NODE_IF_STATEMENT condition block None)) i = Some doc"
  shows "\<exists>before. doc = before @ (CHR 0x22 # ''elseBlock'' @ CHR 0x22 # '': null'') @
                        ''\<newline>'' @ write_indent (i + 1) @ ''}'' @
                        ''\<newline>'' @ write_indent i @ ''}''"
proof -
  from assms obtain condition_json block_json where
    "doc = node_open i (NODE_IF_STATEMENT condition block None) @
            data_open i @ key ''condition'' @ condition_json @
            data_next i @ key ''block'' @ block_json @
            data_next i @ key ''elseBlock'' @ ''null'' @
            data_close i @ node_close i"
    by (simp only: write_ast_to_json.simps case_option_Some_iff option.inject) blast
  then have "doc = (node_open i (NODE_IF_STATEMENT condition block None) @
            data_open i @ key ''condition'' @ condition_json @
            data_next i @ key ''block'' @ block_json @
            data_next i) @ (CHR 0x22 # ''elseBlock'' @ CHR 0x22 # '': null'') @
            ''\<newline>'' @ write_indent (i + 1) @ ''}'' @ ''\<newline>'' @ write_indent i @ ''}''"
    by (simp add: key_def data_close_def node_close_def)
  then show ?thesis by blast
qed

lemma serialize_if_without_else:
  assumes "serialize_ast (Some (NODE_IF_STATEMENT condition block None)) = Some doc"
  shows "\<exists>before. doc = before @ (CHR 0x22 # ''elseBlock'' @ CHR 0x22 # '': null'') @
                        ''\<newline>  }'' @ ''\<newline>}''"
proof -
  from assms obtain condition_json block_json where
    "doc = node_prefix (NODE_IF_STATEMENT condition block None) @
            ''{\<newline>    '' @ key ''condition'' @ condition_json @
            '',\<newline>    '' @ key ''block'' @ block_json @
            '',\<newline>    '' @ key ''elseBlock'' @ ''null'' @
            ''\<newline>  }'' @ node_suffix"
    by (simp only: serialize_ast.simps case_option_Some_iff option.inject) blast
  then have "doc = (node_prefix (NODE_IF_STATEMENT condition block None) @
            ''{\<newline>    '' @ key ''condition'' @ condition_json @
            '',\<newline>    '' @ key ''block'' @ block_json @
            '',\<newline>    '') @ (CHR 0x22 # ''elseBlock'' @ CHR 0x22 # '': null'') @
            ''\<newline>  }'' @ ''\<newline>}''"
    by (simp add: key_def node_suffix_def)
  then show ?thesis by blast
qed

lemma write_expression_without_right:
  assumes "write_ast_to_json (Some (NODE_EXPRESSION left_token operator None)) i = Some doc"
  shows "\<exists>before. doc = before @ (CHR 0x22 # ''right'' @ CHR 0x22 # '': null'') @
                        ''\<newline>'' @ write_indent (i + 1) @ ''}'' @
                        ''\<newline>'' @ write_indent i @ ''}''"
proof -
  from assms obtain token_json where
    "doc = node_open i (NODE_EXPRESSION left_token operator None) @
            data_open i @ key ''leftToken'' @ token_json @
            data_next i @ key ''operator'' @
            (case operator of
               Some op \<Rightarrow> write_json_string op (i + 2)
             | None \<Rightarrow> ''null'') @
            data_next i @ key ''right'' @ ''null'' @
            data_close i @ node_close i"
    by (simp only: write_ast_to_json.simps case_option_Some_iff option.inject) blast
  then have "doc = (node_open i (NODE_EXPRESSION left_token operator None) @
            data_open i @ key ''leftToken'' @ token_json @
            data_next i @ key ''operator'' @
            (case operator of
               Some op \<Rightarrow> write_json_string op (i + 2)
             | None \<Rightarrow> ''null'') @
            data_next i) @ (CHR 0x22 # ''right'' @ CHR 0x22 # '': null'') @
            ''\<newline>'' @ write_indent (i + 1) @ ''}'' @ ''\<newline>'' @ write_indent i @ ''}''"
    by (simp add: key_def data_close_def node_close_def)
  then show ?thesis by blast
qed

lemma serialize_expression_without_right:
  assumes "serialize_ast (Some (NODE_EXPRESSION left_token operator None)) = Some doc"
  shows "\<exists>before. doc = before @ (CHR 0x22 # ''right'' @ CHR 0x22 # '': null'') @
                        ''\<newline>  }'' @ ''\<newline>}''"
proof -
  from assms obtain token_json where
    "doc = node_prefix (NODE_EXPRESSION left_token operator None) @
            ''{\<newline>    '' @ key ''leftToken'' @ token_json @
            '',\<newline>    '' @ key ''operator'' @
            (case operator of
               Some op \<Rightarrow> json_append_escaped_string op
             | None \<Rightarrow> ''null'') @
            '',\<newline>    '' @ key ''right'' @ ''null'' @
            ''\<newline>  }'' @ node_suffix"
    by (simp only: serialize_ast.simps case_option_Some_iff option.inject) blast
  then have "doc = (node_prefix (NODE_EXPRESSION left_token operator None) @
            ''{\<newline>    '' @ key ''leftToken'' @ token_json @
            '',\<newline>    '' @ key ''operator'' @
            (case operator of
               Some op \<Rightarrow> json_append_escaped_string op
             | None \<Rightarrow> ''null'') @
            '',\<newline>    '') @ (CHR 0x22 # ''right'' @ CHR 0x22 # '': null'') @
            ''\<newline>  }'' @ ''\<newline>}''"
    by (simp add: key_def node_suffix_def)
  then show ?thesis by blast
qed

lemma write_expression_without_operator:
  assumes "write_ast_to_json (Some (NODE_EXPRESSION left_token None right)) i = Some doc"
  shows "\<exists>before right_json.
           write_ast_to_json right (i + 2) = Some right_json
         \<and> doc = before @ (CHR 0x22 # ''operator'' @ CHR 0x22 # '': null'') @
                 '',\<newline>'' @ write_indent (i + 2) @
                 (CHR 0x22 # ''right'' @ CHR 0x22 # '': '') @ right_json @
                 ''\<newline>'' @ write_indent (i + 1) @ ''}'' @
                 ''\<newline>'' @ write_indent i @ ''}''"
proof -
  from assms obtain token_json right_json where
    r: "write_ast_to_json right (i + 2) = Some right_json" and
    "doc = node_open i (NODE_EXPRESSION left_token None right) @
            data_open i @ key ''leftToken'' @ token_json @
            data_next i @ key ''operator'' @ ''null'' @
            data_next i @ key ''right'' @ right_json @
            data_close i @ node_close i"
    by (simp only: write_ast_to_json.simps case_option_Some_iff option.inject option.case)
       blast
  then have "doc = (node_open i (NODE_EXPRESSION left_token None right) @
            data_open i @ key ''leftToken'' @ token_json @
            data_next i) @ (CHR 0x22 # ''operator'' @ CHR 0x22 # '': null'') @
            '',\<newline>'' @ write_indent (i + 2) @
            (CHR 0x22 # ''right'' @ CHR 0x22 # '': '') @ right_json @
            ''\<newline>'' @ write_indent (i + 1) @ ''}'' @ ''\<newline>'' @ write_indent i @ ''}''"
    by (simp add: key_def data_close_def node_close_def data_next_def)
  with r show ?thesis by blast
qed

lemma serialize_expression_without_operator:
  assumes "serialize_ast (Some (NODE_EXPRESSION left_token None right)) = Some doc"
  shows "\<exists>before right_json.
           serialize_ast right = Some right_json
         \<and> doc = before @ (CHR 0x22 # ''operator'' @ CHR 0x22 # '': null'') @
                 '',\<newline>    '' @ (CHR 0x22 # ''right'' @ CHR 0x22 # '': '') @ right_json @
                 ''\<newline>  }'' @ ''\<newline>}''"
proof -
  from assms obtain token_json right_json where
    r: "serialize_ast right = Some right_json" and
    "doc = node_prefix (NODE_EXPRESSION left_token None right) @
            ''{\<newline>    '' @ key ''leftToken'' @ token_json @
            '',\<newline>    '' @ key ''operator'' @ ''null'' @
            '',\<newline>    '' @ key ''right'' @ right_json @
            ''\<newline>  }'' @ node_suffix"
    by (simp only: serialize_ast.simps case_option_Some_iff option.inject option.case) blast
  then have "doc = (node_prefix (NODE_EXPRESSION left_token None right) @
            ''{\<newline>    '' @ key ''leftToken'' @ token_json @
            '',\<newline>    '') @ (CHR 0x22 # ''operator'' @ CHR 0x22 # '': null'') @
            '',\<newline>    '' @ (CHR 0x22 # ''right'' @ CHR 0x22 # '': '') @ right_json @
            ''\<newline>  }'' @ ''\<newline>}''"
    by (simp add: key_def node_suffix_def)
  with r show ?thesis by blast
qed

text \<open>
  Claim C8. Let \<open>node\<close> be any node of a tree whose expression tokens have live text, as
  every tree built from a source text has (\<open>generate_tree_live\<close>). Both
  serializers return a document for the tree, and the document of \<open>node\<close> occurs in it as it
  is. When \<open>node\<close> is an IfStatement without else block, its document ends, in both modes,
  with the characters \<open>"elseBlock": null\<close> followed by the two closing braces of the node.
  When it is an Expression without right operand, its document ends with \<open>"right": null\<close>
  followed by the closing braces. When it is an Expression without operator, its document
  ends with \<open>"operator": null\<close>, a comma, the key \<open>"right"\<close> with the document of the right
  operand, and the closing braces. The key of an absent field is always written.
\<close>

theorem absent_fields_serialized_as_null:
  assumes "node \<in> set (subnodes tree)" and "tokens_live tree"
  shows "\<exists>streamed buffered i node_streamed node_buffered.
           write_ast_to_json (Some tree) indent = Some streamed
         \<and> serialize_ast (Some tree) = Some buffered
         \<and> write_ast_to_json (Some node) i = Some node_streamed
         \<and> sublist node_streamed streamed
         \<and> serialize_ast (Some node) = Some node_buffered
         \<and> sublist node_buffered buffered
         \<and> (\<forall>condition block. node = NODE_IF_STATEMENT condition block None \<longrightarrow>
               (\<exists>before. node_streamed =
                  before @ (CHR 0x22 # ''elseBlock'' @ CHR 0x22 # '': null'') @
                  ''\<newline>'' @ write_indent (i + 1) @ ''}'' @
                  ''\<newline>'' @ write_indent i @ ''}'')
             \<and> (\<exists>before. node_buffered =
                  before @ (CHR 0x22 # ''elseBlock'' @ CHR 0x22 # '': null'') @
                  ''\<newline>  }'' @ ''\<newline>}''))
         \<and> (\<forall>left_token operator. node = NODE_EXPRESSION left_token operator None \<longrightarrow>
               (\<exists>before. node_streamed =
                  before @ (CHR 0x22 # ''right'' @ CHR 0x22 # '': null'') @
                  ''\<newline>'' @ write_indent (i + 1) @ ''}'' @
                  ''\<newline>'' @ write_indent i @ ''}'')
             \<and> (\<exists>before. node_buffered =
                  before @ (CHR 0x22 # ''right'' @ CHR 0x22 # '': null'') @
                  ''\<newline>  }'' @ ''\<newline>}''))
         \<and> (\<forall>left_token right. node = NODE_EXPRESSION left_token None right \<longrightarrow>
               (\<exists>before right_json.
                  write_ast_to_json right (i + 2) = Some right_json
                \<and> node_streamed =
                  before @ (CHR 0x22 # ''operator'' @ CHR 0x22 # '': null'') @
                  '',\<newline>'' @ write_indent (i + 2) @
                  (CHR 0x22 # ''right'' @ CHR 0x22 # '': '') @ right_json @
                  ''\<newline>'' @ write_indent (i + 1) @ ''}'' @
                  ''\<newline>'' @ write_indent i @ ''}'')
             \<and> (\<exists>before right_json.
                  serialize_ast right = Some right_json
                \<and> node_buffered =
                  before @ (CHR 0x22 # ''operator'' @ CHR 0x22 # '': null'') @
                  '',\<newline>    '' @ (CHR 0x22 # ''right'' @ CHR 0x22 # '': '') @ right_json @
                  ''\<newline>  }'' @ ''\<newline>}''))"
proof -
  from write_ast_total [OF assms(2)] obtain streamed where
    streamed: "write_ast_to_json (Some tree) indent = Some streamed" by blast
  from serialize_ast_total [OF assms(2)] obtain buffered where
    buffered: "serialize_ast (Some tree) = Some buffered" by blast
  from write_subnode_embed [OF assms(1) streamed] obtain i node_streamed where
    ns: "write_ast_to_json (Some node) i = Some node_streamed"
    and ns_in: "sublist node_streamed streamed" by blast
  from serialize_subnode_embed [OF assms(1) buffered] obtain node_buffered where
    nb: "serialize_ast (Some node) = Some node_buffered"
    and nb_in: "sublist node_buffered buffered" by blast
  have else_block: "\<forall>condition block. node = NODE_IF_STATEMENT condition block None \<longrightarrow>
               (\<exists>before. node_streamed =
                  before @ (CHR 0x22 # ''elseBlock'' @ CHR 0x22 # '': null'') @
                  ''\<newline>'' @ write_indent (i + 1) @ ''}'' @
                  ''\<newline>'' @ write_indent i @ ''}'')
             \<and> (\<exists>before. node_buffered =
                  before @ (CHR 0x22 # ''elseBlock'' @ CHR 0x22 # '': null'') @
                  ''\<newline>  }'' @ ''\<newline>}'')"
    using ns nb by (blast dest: write_if_without_else serialize_if_without_else)
  have right_operand:
    "\<forall>left_token operator. node = NODE_EXPRESSION left_token operator None \<longrightarrow>
               (\<exists>before. node_streamed =
                  before @ (CHR 0x22 # ''right'' @ CHR 0x22 # '': null'') @
                  ''\<newline>'' @ write_indent (i + 1) @ ''}'' @
                  ''\<newline>'' @ write_indent i @ ''}'')
             \<and> (\<exists>before. node_buffered =
                  before @ (CHR 0x22 # ''right'' @ CHR 0x22 # '': null'') @
                  ''\<newline>  }'' @ ''\<newline>}'')"
    using ns nb
    by (blast dest: write_expression_without_right serialize_expression_without_right)
  have operator: "\<forall>left_token right. node = NODE_EXPRESSION left_token None right \<longrightarrow>
               (\<exists>before right_json.
                  write_ast_to_json right (i + 2) = Some right_json
                \<and> node_streamed =
                  before @ (CHR 0x22 # ''operator'' @ CHR 0x22 # '': null'') @
                  '',\<newline>'' @ write_indent (i + 2) @
                  (CHR 0x22 # ''right'' @ CHR 0x22 # '': '') @ right_json @
                  ''\<newline>'' @ write_indent (i + 1) @ ''}'' @
                  ''\<newline>'' @ write_indent i @ ''}'')
             \<and> (\<exists>before right_json.
                  serialize_ast right = Some right_json
                \<and> node_buffered =
                  before @ (CHR 0x22 # ''operator'' @ CHR 0x22 # '': null'') @
                  '',\<newline>    '' @ (CHR 0x22 # ''right'' @ CHR 0x22 # '': '') @ right_json @
                  ''\<newline>  }'' @ ''\<newline>}'')"
    using ns nb
    by (blast dest: write_expression_without_operator serialize_expression_without_operator)
  from streamed buffered ns ns_in nb nb_in else_block right_operand operator
  show ?thesis by blast
qed

theorem absent_fields_serialized_as_null_witness:
  "\<exists>streamed buffered.
     write_ast_to_json (Some (projr (the (generate_tree ''if(x>1){y=2}'')))) 0 = Some streamed
   \<and> serialize_ast (Some (projr (the (generate_tree ''if(x>1){y=2}'')))) = Some buffered
   \<and> sublist (CHR 0x22 # ''elseBlock'' @ CHR 0x22 # '': null'') streamed
   \<and> sublist (CHR 0x22 # ''elseBlock'' @ CHR 0x22 # '': null'') buffered"
proof -
  let ?x = "NODE_EXPRESSION
              \<lparr>type = TOKEN_IDENTIFIER, value = Some ''x'', line = 1, column = 3\<rparr> None None"
  let ?one = "NODE_EXPRESSION
              \<lparr>type = TOKEN_NUMBER, value = Some ''1'', line = 1, column = 5\<rparr> None None"
  let ?two = "NODE_EXPRESSION
              \<lparr>type = TOKEN_NUMBER, value = Some ''2'', line = 1, column = 10\<rparr> None None"
  let ?cond = "NODE_CONDITION ?x ''>'' ?one"
  let ?block = "NODE_STATEMENT_BLOCK [NODE_ASSIGNMENT_STATEMENT ''y'' ?two]"
  let ?node = "NODE_IF_STATEMENT ?cond ?block None"
  let ?tree = "NODE_PROGRAM (NODE_STATEMENT_BLOCK [?node])"
  let ?lit = "CHR 0x22 # ''elseBlock'' @ CHR 0x22 # '': null''"
  have tree: "generate_tree ''if(x>1){y=2}'' = Some (Inr ?tree)"
    by code_simp
  have mem: "?node \<in> set (subnodes ?tree)"
    by simp
  have live: "tokens_live ?tree"
    by (simp add: tokens_live_def live_token_def)
  from absent_fields_serialized_as_null [OF mem live, of 0]
  obtain streamed buffered i node_streamed node_buffered where
    docs: "write_ast_to_json (Some ?tree) 0 = Some streamed"
      "serialize_ast (Some ?tree) = Some buffered"
    and inside: "sublist node_streamed streamed" "sublist node_buffered buffered"
    and shape: "\<forall>condition block. ?node = NODE_IF_STATEMENT condition block None \<longrightarrow>
               (\<exists>before. node_streamed =
                  before @ (CHR 0x22 # ''elseBlock'' @ CHR 0x22 # '': null'') @
                  ''\<newline>'' @ write_indent (i + 1) @ ''}'' @
                  ''\<newline>'' @ write_indent i @ ''}'')
             \<and> (\<exists>before. node_buffered =
                  before @ (CHR 0x22 # ''elseBlock'' @ CHR 0x22 # '': null'') @
                  ''\<newline>  }'' @ ''\<newline>}'')"
    by (elim exE conjE) (rule that; assumption)
  from shape [rule_format, OF refl] obtain b1 b2 where
    s: "node_streamed = b1 @ ?lit @
              ''\<newline>'' @ write_indent (i + 1) @ ''}'' @ ''\<newline>'' @ write_indent i @ ''}''"
    and b: "node_buffered = b2 @ ?lit @ ''\<newline>  }'' @ ''\<newline>}''"
    by (elim exE conjE) (rule that; assumption)
  have "sublist ?lit node_streamed"
    unfolding s by (fast intro: sublist_in_left sublist_in_right sublist_self)
  with inside(1) have "sublist ?lit streamed" by (rule sublist_trans [rotated])
  moreover have "sublist ?lit node_buffered"
    unfolding b by (fast intro: sublist_in_left sublist_in_right sublist_self)
  with inside(2) have "sublist ?lit buffered" by (rule sublist_trans [rotated])
  ultimately have "\<exists>streamed buffered.
     write_ast_to_json (Some ?tree) 0 = Some streamed
   \<and> serialize_ast (Some ?tree) = Some buffered
   \<and> sublist ?lit streamed \<and> sublist ?lit buffered"
    using docs by (intro exI conjI)
  then show ?thesis
    by (simp only: tree option.sel sum.sel)
qed


section \<open>Sorting benchmark (src/sort/c/sort.c)\<close>

definition MAX_DATA_SIZE :: nat where
  "MAX_DATA_SIZE = 100000"

text \<open>
  An \<open>int\<close> array is a list of integers; the theorems assume every element is a
  nonnegative 32-bit \<open>int\<close>. Loop counters that never go below zero are natural numbers;
  the parameter \<open>size\<close> is written \<open>sz\<close>.
\<close>

text \<open>\<open>check_results\<close> compares with the global array \<open>expected_data\<close>, here a parameter.\<close>

function check_results_loop :: "int list \<Rightarrow> int list \<Rightarrow> nat \<Rightarrow> nat \<Rightarrow> bool" where
  "check_results_loop data expected_data i sz =
     (if i < sz
      then (if data ! i \<noteq> expected_data ! i then False
            else check_results_loop data expected_data (i + 1) sz)
      else True)"
  by pat_completeness auto
termination
  by (relation "measure (\<lambda>(data, expected_data, i, sz). sz - i)") auto

declare check_results_loop.simps [simp del]

definition check_results :: "int list \<Rightarrow> int list \<Rightarrow> nat \<Rightarrow> bool" where
  "check_results data expected_data sz = check_results_loop data expected_data 0 sz"

subsection \<open>Bubble sort\<close>

function bubble_inner :: "int list \<Rightarrow> nat \<Rightarrow> nat \<Rightarrow> int list" where
  "bubble_inner data j bound =
     (if j < bound
      then bubble_inner
             (if data ! j > data ! (j + 1)
              then data[j := data ! (j + 1), j + 1 := data ! j]
              else data)
             (j + 1) bound
      else data)"
  by pat_completeness auto
termination
  by (relation "measure (\<lambda>(data, j, bound). bound - j)") auto

declare bubble_inner.simps [simp del]

function bubble_outer :: "int list \<Rightarrow> nat \<Rightarrow> nat \<Rightarrow> int list" where
  "bubble_outer data i sz =
     (if i < sz
      then bubble_outer (bubble_inner data 0 (sz - i - 1)) (i + 1) sz
      else data)"
  by pat_completeness auto
termination
  by (relation "measure (\<lambda>(data, i, sz). sz - i)") auto

declare bubble_outer.simps [simp del]

definition bubble_sort :: "int list \<Rightarrow> nat \<Rightarrow> int list" where
  "bubble_sort data sz = bubble_outer data 0 sz"

subsection \<open>Quick sort\<close>

text \<open>\<open>low\<close>, \<open>high\<close> and the counter \<open>i\<close> of \<open>partition\<close> can be \<open>-1\<close>: they are integers.\<close>

function partition_loop :: "int list \<Rightarrow> int \<Rightarrow> int \<Rightarrow> int \<Rightarrow> int \<Rightarrow> int list \<times> int" where
  "partition_loop arr pivot i j high =
     (if j \<le> high - 1
      then (if arr ! nat j \<le> pivot
            then partition_loop
                   (arr[nat (i + 1) := arr ! nat j, nat j := arr ! nat (i + 1)])
                   pivot (i + 1) (j + 1) high
            else partition_loop arr pivot i (j + 1) high)
      else (arr, i))"
  by pat_completeness auto
termination
  by (relation "measure (\<lambda>(arr, pivot, i, j, high). nat (high - j))") auto

declare partition_loop.simps [simp del]

definition partition_c :: "int list \<Rightarrow> int \<Rightarrow> int \<Rightarrow> int list \<times> int" where
  "partition_c arr low high =
     (let pivot = arr ! nat high in
      case partition_loop arr pivot (low - 1) low high of
        (arr1, i) \<Rightarrow>
          (arr1[nat (i + 1) := arr1 ! nat high, nat high := arr1 ! nat (i + 1)], i + 1))"


lemma partition_loop_bounds:
  "partition_loop arr pivot i j high = (arr', i') \<Longrightarrow> i < j \<Longrightarrow> j \<le> high \<Longrightarrow>
   i \<le> i' \<and> i' < high \<and> length arr' = length arr"
proof (induction arr pivot i j high arbitrary: arr' i' rule: partition_loop.induct)
  case (1 arr pivot i j high)
  show ?case
  proof (cases "j \<le> high - 1")
    case False
    with "1.prems" show ?thesis by (simp add: partition_loop.simps)
  next
    case True
    show ?thesis
    proof (cases "arr ! nat j \<le> pivot")
      case True
      with \<open>j \<le> high - 1\<close> "1.prems" "1.IH"(1) [of arr' i'] show ?thesis
        by (simp add: partition_loop.simps)
    next
      case False
      with \<open>j \<le> high - 1\<close> "1.prems" "1.IH"(2) [of arr' i'] show ?thesis
        by (simp add: partition_loop.simps)
    qed
  qed
qed

lemma partition_bounds:
  "partition_c arr low high = (arr', p) \<Longrightarrow> low \<le> high \<Longrightarrow>
   low \<le> p \<and> p \<le> high \<and> length arr' = length arr"
  by (auto simp: partition_c_def Let_def split: prod.splits dest!: partition_loop_bounds)

function quick_sort_recursive :: "int list \<Rightarrow> int \<Rightarrow> int \<Rightarrow> int list" where
  "quick_sort_recursive arr low high =
     (if low < high
      then (case partition_c arr low high of
              (arr1, pi) \<Rightarrow>
                quick_sort_recursive (quick_sort_recursive arr1 low (pi - 1)) (pi + 1) high)
      else arr)"
  by pat_completeness auto
termination
  by (relation "measure (\<lambda>(arr, low, high). nat (high - low + 1))")
     (auto dest!: partition_bounds [OF sym])

declare quick_sort_recursive.simps [simp del]

definition quick_sort :: "int list \<Rightarrow> nat \<Rightarrow> int list" where
  "quick_sort data sz = quick_sort_recursive data 0 (int sz - 1)"


subsection \<open>Radix sort\<close>

text \<open>\<open>/\<close> and \<open>%\<close> of C truncate towards zero.\<close>

definition c_div :: "int \<Rightarrow> int \<Rightarrow> int" where
  "c_div a b = sgn a * sgn b * (\<bar>a\<bar> div \<bar>b\<bar>)"

definition c_mod :: "int \<Rightarrow> int \<Rightarrow> int" where
  "c_mod a b = a - b * c_div a b"

text \<open>The index expression \<open>(arr[i] / exp) % 10\<close>.\<close>

definition digit :: "int \<Rightarrow> int \<Rightarrow> int" where
  "digit a exp = c_mod (c_div a exp) 10"

function count_loop :: "int list \<Rightarrow> int \<Rightarrow> int list \<Rightarrow> nat \<Rightarrow> nat \<Rightarrow> int list" where
  "count_loop arr exp cnt i sz =
     (if i < sz
      then count_loop arr exp
             (cnt[nat (digit (arr ! i) exp) := cnt ! nat (digit (arr ! i) exp) + 1])
             (i + 1) sz
      else cnt)"
  by pat_completeness auto
termination
  by (relation "measure (\<lambda>(arr, exp, cnt, i, sz). sz - i)") auto

declare count_loop.simps [simp del]

function prefix_loop :: "int list \<Rightarrow> nat \<Rightarrow> int list" where
  "prefix_loop cnt i =
     (if i < 10
      then prefix_loop (cnt[i := cnt ! i + cnt ! (i - 1)]) (i + 1)
      else cnt)"
  by pat_completeness auto
termination
  by (relation "measure (\<lambda>(cnt, i). 10 - i)") auto

declare prefix_loop.simps [simp del]

function place_loop :: "int list \<Rightarrow> int \<Rightarrow> int list \<Rightarrow> int list \<Rightarrow> int \<Rightarrow> int list" where
  "place_loop arr exp cnt output i =
     (if i \<ge> 0
      then place_loop arr exp
             (cnt[nat (digit (arr ! nat i) exp) := cnt ! nat (digit (arr ! nat i) exp) - 1])
             (output[nat (cnt ! nat (digit (arr ! nat i) exp) - 1) := arr ! nat i])
             (i - 1)
      else output)"
  by pat_completeness auto
termination
  by (relation "measure (\<lambda>(arr, exp, cnt, output, i). nat (i + 1))") auto

declare place_loop.simps [simp del]

function copy_loop :: "int list \<Rightarrow> int list \<Rightarrow> nat \<Rightarrow> nat \<Rightarrow> int list" where
  "copy_loop arr output i sz =
     (if i < sz then copy_loop (arr[i := output ! i]) output (i + 1) sz else arr)"
  by pat_completeness auto
termination
  by (relation "measure (\<lambda>(arr, output, i, sz). sz - i)") auto

declare copy_loop.simps [simp del]

text \<open>
  The local array \<open>output\<close> is not initialised in C; every cell that is read has been
  written by the third loop before.
\<close>

definition counting_sort_for_radix :: "int list \<Rightarrow> nat \<Rightarrow> int \<Rightarrow> int list" where
  "counting_sort_for_radix arr sz exp =
     (let output = replicate MAX_DATA_SIZE 0;
          cnt = replicate 10 0;
          cnt1 = count_loop arr exp cnt 0 sz;
          cnt2 = prefix_loop cnt1 1;
          output1 = place_loop arr exp cnt2 output (int sz - 1)
      in copy_loop arr output1 0 sz)"

function max_loop :: "int list \<Rightarrow> int \<Rightarrow> nat \<Rightarrow> nat \<Rightarrow> int" where
  "max_loop data m i sz =
     (if i < sz then max_loop data (if data ! i > m then data ! i else m) (i + 1) sz else m)"
  by pat_completeness auto
termination
  by (relation "measure (\<lambda>(data, m, i, sz). sz - i)") auto

declare max_loop.simps [simp del]

text \<open>The range of \<open>int\<close>, 32 bits wide.\<close>

definition INT_MAX :: int where
  "INT_MAX = 2147483647"

definition INT_MIN :: int where
  "INT_MIN = - 2147483648"

text \<open>
  The loop \<open>for (exp = 1; max / exp > 0; exp *= 10)\<close>. \<open>exp *= 10\<close> is a multiplication of
  \<open>int\<close> values. When the product is outside the range of \<open>int\<close> the behaviour of the program
  is undefined: \<open>SignedOverflow\<close> marks such a run. \<open>DivisionByZero\<close> marks a division by
  an \<open>exp\<close> that is zero. The loop ends in every case: \<open>exp\<close> grows in absolute value and
  stays in the range of \<open>int\<close>.
\<close>

datatype sort_error = SignedOverflow | DivisionByZero

function radix_loop :: "int list \<Rightarrow> nat \<Rightarrow> int \<Rightarrow> int \<Rightarrow> sort_error + int list" where
  "radix_loop data sz m exp =
     (if exp = 0 then Inl DivisionByZero
      else if c_div m exp > 0
      then (let data1 = counting_sort_for_radix data sz exp in
            if exp * 10 < INT_MIN \<or> INT_MAX < exp * 10 then Inl SignedOverflow
            else radix_loop data1 sz m (exp * 10))
      else Inr data)"
  by pat_completeness auto
termination
  by (relation "measure (\<lambda>(data, sz, m, exp). nat (2 ^ 31 + 1 - \<bar>exp\<bar>))")
     (auto simp: INT_MAX_def INT_MIN_def)

declare radix_loop.simps [simp del]

text \<open>
  \<open>radix_sort\<close> reads \<open>data[0]\<close> whatever \<open>size\<close> is; the theorems about it are for arrays
  that have a first element.
\<close>

definition radix_sort :: "int list \<Rightarrow> nat \<Rightarrow> sort_error + int list" where
  "radix_sort data sz = radix_loop data sz (max_loop data (data ! 0) 1 sz) 1"

section \<open>Properties of the sorting routines\<close>

subsection \<open>Bubble sort sorts\<close>

lemma bubble_inner_length [simp]: "length (bubble_inner data j bound) = length data"
  by (induction data j bound rule: bubble_inner.induct)
     (subst bubble_inner.simps, simp)

lemma bubble_inner_mset:
  "bound < length data \<Longrightarrow> mset (bubble_inner data j bound) = mset data"
proof (induction data j bound rule: bubble_inner.induct)
  case (1 data j bound)
  show ?case
  proof (cases "j < bound")
    case True
    with "1.prems" have "mset (data[j := data ! (j + 1), j + 1 := data ! j]) = mset data"
      by (simp add: mset_swap)
    with True "1.prems" "1.IH" show ?thesis
      by (subst bubble_inner.simps) simp
  next
    case False
    then show ?thesis by (subst bubble_inner.simps) simp
  qed
qed

lemma bubble_inner_beyond:
  "bound < k \<Longrightarrow> bubble_inner data j bound ! k = data ! k"
proof (induction data j bound rule: bubble_inner.induct)
  case (1 data j bound)
  show ?case
  proof (cases "j < bound")
    case True
    with "1.prems" "1.IH" show ?thesis
      by (subst bubble_inner.simps) simp
  next
    case False
    then show ?thesis by (subst bubble_inner.simps) simp
  qed
qed

lemma bubble_inner_upper:
  "bound < length data \<Longrightarrow> \<forall>p\<le>bound. data ! p \<le> x \<Longrightarrow>
   \<forall>p\<le>bound. bubble_inner data j bound ! p \<le> x"
proof (induction data j bound rule: bubble_inner.induct)
  case (1 data j bound)
  show ?case
  proof (cases "j < bound")
    case True
    let ?d = "if data ! j > data ! (j + 1)
              then data[j := data ! (j + 1), j + 1 := data ! j] else data"
    have "\<forall>p\<le>bound. ?d ! p \<le> x"
      using "1.prems" True by (auto simp: nth_list_update)
    moreover have "bound < length ?d" using "1.prems" by simp
    ultimately have "\<forall>p\<le>bound. bubble_inner ?d (j + 1) bound ! p \<le> x"
      using "1.IH" True by blast
    with True show ?thesis by (subst bubble_inner.simps) simp
  next
    case False
    with "1.prems" show ?thesis by (subst bubble_inner.simps) simp
  qed
qed

lemma bubble_inner_max:
  "j \<le> bound \<Longrightarrow> bound < length data \<Longrightarrow> \<forall>k<j. data ! k \<le> data ! j \<Longrightarrow>
   \<forall>k<bound. bubble_inner data j bound ! k \<le> bubble_inner data j bound ! bound"
proof (induction data j bound rule: bubble_inner.induct)
  case (1 data j bound)
  show ?case
  proof (cases "j < bound")
    case True
    let ?d = "if data ! j > data ! (j + 1)
              then data[j := data ! (j + 1), j + 1 := data ! j] else data"
    have inv: "\<forall>k<j + 1. ?d ! k \<le> ?d ! (j + 1)"
    proof (intro allI impI)
      fix k assume "k < j + 1"
      then consider "k < j" | "k = j" by linarith
      then show "?d ! k \<le> ?d ! (j + 1)"
      proof cases
        case 1
        with "1.prems" True have "data ! k \<le> data ! j" by simp
        with 1 "1.prems" True show ?thesis by (auto simp: nth_list_update)
      next
        case 2
        with "1.prems" True show ?thesis by (auto simp: nth_list_update)
      qed
    qed
    have "\<forall>k<bound. bubble_inner ?d (j + 1) bound ! k \<le> bubble_inner ?d (j + 1) bound ! bound"
      using "1.IH" [OF True] True "1.prems"(2) inv by simp
    with True show ?thesis by (subst (1 2) bubble_inner.simps) simp
  next
    case False
    with "1.prems" show ?thesis by (subst (1 2) bubble_inner.simps) simp
  qed
qed

definition settled :: "nat \<Rightarrow> int list \<Rightarrow> bool" where
  "settled i data \<longleftrightarrow>
     (\<forall>p q. p < q \<and> length data - i \<le> q \<and> q < length data \<longrightarrow> data ! p \<le> data ! q)"

lemma bubble_pass_settled:
  assumes "i < length data" and "settled i data"
  shows "settled (i + 1) (bubble_inner data 0 (length data - i - 1))"
proof -
  let ?b = "length data - i - 1"
  let ?r = "bubble_inner data 0 ?b"
  have b: "?b < length data" using assms(1) by simp
  show ?thesis
    unfolding settled_def
  proof (intro allI impI)
    fix p q
    assume pq: "p < q \<and> length ?r - (i + 1) \<le> q \<and> q < length ?r"
    then have q: "?b \<le> q" "q < length data" and "p < q" by simp_all
    show "?r ! p \<le> ?r ! q"
    proof (cases "q = ?b")
      case True
      with bubble_inner_max [of 0 ?b data] b \<open>p < q\<close> show ?thesis by simp
    next
      case False
      with q have beyond: "?b < q" by simp
      then have rq: "?r ! q = data ! q" by (rule bubble_inner_beyond)
      show ?thesis
      proof (cases "p \<le> ?b")
        case True
        have "\<forall>p\<le>?b. data ! p \<le> data ! q"
          using assms(2) beyond q unfolding settled_def by auto
        with bubble_inner_upper [OF b, of "data ! q" 0] True rq show ?thesis by simp
      next
        case False
        then have "?r ! p = data ! p" by (simp add: bubble_inner_beyond)
        moreover have "data ! p \<le> data ! q"
          using assms(2) \<open>p < q\<close> beyond q unfolding settled_def by auto
        ultimately show ?thesis using rq by simp
      qed
    qed
  qed
qed

lemma bubble_outer_length [simp]: "length (bubble_outer data i sz) = length data"
  by (induction data i sz rule: bubble_outer.induct)
     (subst bubble_outer.simps, simp)

lemma bubble_outer_mset:
  "sz = length data \<Longrightarrow> mset (bubble_outer data i sz) = mset data"
proof (induction data i sz rule: bubble_outer.induct)
  case (1 data i sz)
  show ?case
  proof (cases "i < sz")
    case True
    with "1.prems" have "mset (bubble_inner data 0 (sz - i - 1)) = mset data"
      by (simp add: bubble_inner_mset)
    with True "1.prems" "1.IH" show ?thesis
      by (subst bubble_outer.simps) simp
  next
    case False
    then show ?thesis by (subst bubble_outer.simps) simp
  qed
qed

lemma bubble_outer_sorted:
  "sz = length data \<Longrightarrow> i \<le> sz \<Longrightarrow> settled i data \<Longrightarrow> sorted (bubble_outer data i sz)"
proof (induction data i sz rule: bubble_outer.induct)
  case (1 data i sz)
  show ?case
  proof (cases "i < sz")
    case True
    with "1.prems" have "settled (i + 1) (bubble_inner data 0 (sz - i - 1))"
      using bubble_pass_settled [of i data] by simp
    with True "1.prems" "1.IH" show ?thesis
      by (subst bubble_outer.simps) simp
  next
    case False
    with "1.prems" have "i = length data" by simp
    with "1.prems" have "\<forall>p q. p < q \<and> q < length data \<longrightarrow> data ! p \<le> data ! q"
      unfolding settled_def by simp
    then have "sorted data"
      by (auto simp: sorted_iff_nth_mono_less)
    with False show ?thesis by (subst bubble_outer.simps) simp
  qed
qed

lemma bubble_sort_sorts: "bubble_sort data (length data) = sort data"
proof -
  have "settled 0 data" by (simp add: settled_def)
  then have "sorted (bubble_sort data (length data))"
    unfolding bubble_sort_def by (intro bubble_outer_sorted) simp_all
  moreover have "mset (bubble_sort data (length data)) = mset data"
    unfolding bubble_sort_def by (simp add: bubble_outer_mset)
  ultimately show ?thesis by (simp add: properties_for_sort)
qed

subsection \<open>Quick sort sorts\<close>

definition range_le :: "int list \<Rightarrow> int \<Rightarrow> int \<Rightarrow> int \<Rightarrow> bool" where
  "range_le arr low high x \<longleftrightarrow> (\<forall>k::nat. low \<le> int k \<and> int k \<le> high \<longrightarrow> arr ! k \<le> x)"

definition range_ge :: "int list \<Rightarrow> int \<Rightarrow> int \<Rightarrow> int \<Rightarrow> bool" where
  "range_ge arr low high x \<longleftrightarrow> (\<forall>k::nat. low \<le> int k \<and> int k \<le> high \<longrightarrow> x \<le> arr ! k)"

definition same_outside :: "int list \<Rightarrow> int list \<Rightarrow> int \<Rightarrow> int \<Rightarrow> bool" where
  "same_outside arr' arr low high \<longleftrightarrow>
     (\<forall>k::nat. int k < low \<or> high < int k \<longrightarrow> arr' ! k = arr ! k)"

definition range_sorted :: "int list \<Rightarrow> int \<Rightarrow> int \<Rightarrow> bool" where
  "range_sorted arr low high \<longleftrightarrow>
     (\<forall>k l::nat. low \<le> int k \<and> k \<le> l \<and> int l \<le> high \<longrightarrow> arr ! k \<le> arr ! l)"

text \<open>Exchanging two cells of a range keeps the bounds of the range.\<close>

lemma swap_range_le:
  assumes "range_le arr low high x" and "low \<le> int a" "int a \<le> high" "low \<le> int b" "int b \<le> high"
      and "a < length arr" "b < length arr"
  shows "range_le (arr[a := arr ! b, b := arr ! a]) low high x"
  using assms unfolding range_le_def by (auto simp: nth_list_update)

lemma swap_range_ge:
  assumes "range_ge arr low high x" and "low \<le> int a" "int a \<le> high" "low \<le> int b" "int b \<le> high"
      and "a < length arr" "b < length arr"
  shows "range_ge (arr[a := arr ! b, b := arr ! a]) low high x"
  using assms unfolding range_ge_def by (auto simp: nth_list_update)

lemma swap_same_outside:
  assumes "same_outside arr arr0 low high" and "low \<le> int a" "int a \<le> high" "low \<le> int b" "int b \<le> high"
  shows "same_outside (arr[a := arr ! b, b := arr ! a]) arr0 low high"
  using assms unfolding same_outside_def by (auto simp: nth_list_update)

text \<open>The loop of \<open>partition\<close>, with \<open>low\<close> and the array at loop entry as ghost values.\<close>

definition part_inv :: "int list \<Rightarrow> int \<Rightarrow> int \<Rightarrow> int \<Rightarrow> int \<Rightarrow> int \<Rightarrow> bool" where
  "part_inv arr pivot low high i j \<longleftrightarrow>
     0 \<le> low \<and> low - 1 \<le> i \<and> i < j \<and> j \<le> high \<and> high < int (length arr)
   \<and> range_le arr low i pivot
   \<and> (\<forall>k::nat. i < int k \<and> int k < j \<longrightarrow> pivot < arr ! k)"

lemma part_inv_step_le:
  assumes "part_inv arr pivot low high i j" and "j \<le> high - 1" and "arr ! nat j \<le> pivot"
  shows "part_inv (arr[nat (i + 1) := arr ! nat j, nat j := arr ! nat (i + 1)])
           pivot low high (i + 1) (j + 1)"
proof -
  let ?a = "nat (i + 1)" and ?b = "nat j"
  let ?arr = "arr[?a := arr ! ?b, ?b := arr ! ?a]"
  from assms have bnd: "0 \<le> low" "low - 1 \<le> i" "i < j" "j \<le> high" "high < int (length arr)"
    and le: "range_le arr low i pivot"
    and gt: "\<forall>k::nat. i < int k \<and> int k < j \<longrightarrow> pivot < arr ! k"
    by (simp_all add: part_inv_def)
  have a: "int ?a = i + 1" and b: "int ?b = j" using bnd by simp_all
  have ab: "?a \<le> ?b" "?b < length arr" using bnd by simp_all
  have "range_le ?arr low (i + 1) pivot"
    unfolding range_le_def
  proof (intro allI impI)
    fix k :: nat assume k: "low \<le> int k \<and> int k \<le> i + 1"
    show "?arr ! k \<le> pivot"
    proof (cases "k = ?a")
      case True
      with ab assms(3) show ?thesis by (auto simp: nth_list_update)
    next
      case False
      with k a have "int k \<le> i" by linarith
      with k le have "arr ! k \<le> pivot" by (simp add: range_le_def)
      moreover from \<open>int k \<le> i\<close> bnd b have "k \<noteq> ?b" by linarith
      ultimately show ?thesis using False by simp
    qed
  qed
  moreover have "\<forall>k::nat. i + 1 < int k \<and> int k < j + 1 \<longrightarrow> pivot < ?arr ! k"
  proof (intro allI impI)
    fix k :: nat assume k: "i + 1 < int k \<and> int k < j + 1"
    show "pivot < ?arr ! k"
    proof (cases "k = ?b")
      case True
      with k a b have "i < int ?a \<and> int ?a < j" by linarith
      with gt have "pivot < arr ! ?a" by blast
      with True ab show ?thesis by simp
    next
      case False
      with k b have "i < int k \<and> int k < j" by linarith
      with gt have "pivot < arr ! k" by blast
      moreover from k a have "k \<noteq> ?a" by linarith
      ultimately show ?thesis using False by simp
    qed
  qed
  ultimately show ?thesis using bnd assms(2) by (simp add: part_inv_def)
qed

lemma part_inv_step_gt:
  assumes "part_inv arr pivot low high i j" and "j \<le> high - 1" and "\<not> arr ! nat j \<le> pivot"
  shows "part_inv arr pivot low high i (j + 1)"
proof -
  from assms have bnd: "0 \<le> low" "low - 1 \<le> i" "i < j" "j \<le> high" "high < int (length arr)"
    and le: "range_le arr low i pivot"
    and gt: "\<forall>k::nat. i < int k \<and> int k < j \<longrightarrow> pivot < arr ! k"
    by (simp_all add: part_inv_def)
  have "\<forall>k::nat. i < int k \<and> int k < j + 1 \<longrightarrow> pivot < arr ! k"
  proof (intro allI impI)
    fix k :: nat assume k: "i < int k \<and> int k < j + 1"
    show "pivot < arr ! k"
    proof (cases "int k = j")
      case True
      then have "k = nat j" by simp
      with assms(3) show ?thesis by simp
    next
      case False
      with k gt show ?thesis by simp
    qed
  qed
  with bnd le assms(2) show ?thesis by (simp add: part_inv_def)
qed

lemma partition_loop_correct:
  assumes "partition_loop arr pivot i j high = (arr', i')"
      and "part_inv arr pivot low high i j"
  shows "part_inv arr' pivot low high i' high
       \<and> length arr' = length arr \<and> mset arr' = mset arr
       \<and> arr' ! nat high = arr ! nat high
       \<and> (\<forall>arr0. same_outside arr arr0 low high \<longrightarrow> same_outside arr' arr0 low high)
       \<and> (\<forall>x. range_le arr low high x \<longrightarrow> range_le arr' low high x)
       \<and> (\<forall>x. range_ge arr low high x \<longrightarrow> range_ge arr' low high x)"
  using assms
proof (induction arr pivot i j high arbitrary: arr' i' rule: partition_loop.induct)
  case (1 arr pivot i j high)
  from "1.prems"(2) have bnd: "0 \<le> low" "low - 1 \<le> i" "i < j" "j \<le> high"
    "high < int (length arr)"
    by (simp_all add: part_inv_def)
  show ?case
  proof (cases "j \<le> high - 1")
    case False
    with bnd have "j = high" by simp
    with False "1.prems" show ?thesis by (simp add: partition_loop.simps)
  next
    case True
    show ?thesis
    proof (cases "arr ! nat j \<le> pivot")
      case le: True
      let ?a = "nat (i + 1)" and ?b = "nat j"
      let ?arr = "arr[?a := arr ! ?b, ?b := arr ! ?a]"
      have idx: "low \<le> int ?a" "int ?a \<le> high" "low \<le> int ?b" "int ?b \<le> high"
        "?a < length arr" "?b < length arr" "?a \<noteq> nat high" "?b \<noteq> nat high"
        using bnd True by simp_all
      from True le "1.prems"(1) have run: "partition_loop ?arr pivot (i + 1) (j + 1) high = (arr', i')"
        by (simp add: partition_loop.simps)
      from "1.prems"(2) True le have inv: "part_inv ?arr pivot low high (i + 1) (j + 1)"
        by (rule part_inv_step_le)
      note ih = "1.IH"(1) [OF True le run inv]
      have ms: "mset ?arr = mset arr" using idx by (simp add: mset_swap)
      have hi: "?arr ! nat high = arr ! nat high" using idx by simp
      show ?thesis
      proof (intro conjI allI impI)
        show "part_inv arr' pivot low high i' high" using ih by simp
        show "length arr' = length arr" using ih by simp
        show "mset arr' = mset arr" using ih ms by simp
        show "arr' ! nat high = arr ! nat high" using ih hi by simp
      next
        fix arr0 assume "same_outside arr arr0 low high"
        then have "same_outside ?arr arr0 low high"
          using idx by (simp add: swap_same_outside)
        with ih show "same_outside arr' arr0 low high" by blast
      next
        fix x assume "range_le arr low high x"
        then have "range_le ?arr low high x"
          using idx by (simp add: swap_range_le)
        with ih show "range_le arr' low high x" by blast
      next
        fix x assume "range_ge arr low high x"
        then have "range_ge ?arr low high x"
          using idx by (simp add: swap_range_ge)
        with ih show "range_ge arr' low high x" by blast
      qed
    next
      case gt: False
      from True gt "1.prems"(1) have run: "partition_loop arr pivot i (j + 1) high = (arr', i')"
        by (simp add: partition_loop.simps)
      from "1.prems"(2) True gt have inv: "part_inv arr pivot low high i (j + 1)"
        by (rule part_inv_step_gt)
      from "1.IH"(2) [OF True gt run inv] show ?thesis by simp
    qed
  qed
qed


lemma partition_correct:
  assumes "partition_c arr low high = (arr', p)"
      and "0 \<le> low" and "low \<le> high" and "high < int (length arr)"
  shows "low \<le> p \<and> p \<le> high
       \<and> length arr' = length arr \<and> mset arr' = mset arr
       \<and> same_outside arr' arr low high
       \<and> range_le arr' low (p - 1) (arr' ! nat p)
       \<and> range_ge arr' (p + 1) high (arr' ! nat p)
       \<and> (\<forall>x. range_le arr low high x \<longrightarrow> range_le arr' low high x)
       \<and> (\<forall>x. range_ge arr low high x \<longrightarrow> range_ge arr' low high x)"
proof -
  let ?pivot = "arr ! nat high"
  obtain arr1 i where loop: "partition_loop arr ?pivot (low - 1) low high = (arr1, i)"
    by (cases "partition_loop arr ?pivot (low - 1) low high") blast
  with assms(1) have p: "p = i + 1"
    and arr': "arr' = arr1[nat (i + 1) := arr1 ! nat high, nat high := arr1 ! nat (i + 1)]"
    by (auto simp: partition_c_def Let_def)
  have "part_inv arr ?pivot low high (low - 1) low"
    using assms(2-4) by (simp add: part_inv_def range_le_def)
  from partition_loop_correct [OF loop this]
  have inv: "part_inv arr1 ?pivot low high i high"
    and len: "length arr1 = length arr" and ms: "mset arr1 = mset arr"
    and piv: "arr1 ! nat high = ?pivot"
    and out: "\<And>arr0. same_outside arr arr0 low high \<Longrightarrow> same_outside arr1 arr0 low high"
    and ub: "\<And>x. range_le arr low high x \<Longrightarrow> range_le arr1 low high x"
    and lb: "\<And>x. range_ge arr low high x \<Longrightarrow> range_ge arr1 low high x"
    by blast+
  from inv have bnd: "low - 1 \<le> i" "i < high" "high < int (length arr1)"
    and le: "range_le arr1 low i ?pivot"
    and gt: "\<forall>k::nat. i < int k \<and> int k < high \<longrightarrow> ?pivot < arr1 ! k"
    by (simp_all add: part_inv_def)
  let ?a = "nat (i + 1)" and ?b = "nat high"
  have idx: "low \<le> int ?a" "int ?a \<le> high" "low \<le> int ?b" "int ?b \<le> high"
    "?a < length arr1" "?b < length arr1" "int ?a = i + 1" "int ?b = high"
    using bnd assms(2,3) by simp_all
  have at_p: "arr' ! nat p = ?pivot"
    using idx piv by (auto simp: arr' p nth_list_update)
  have "range_le arr' low (p - 1) (arr' ! nat p)"
    unfolding range_le_def at_p
  proof (intro allI impI)
    fix k :: nat assume k: "low \<le> int k \<and> int k \<le> p - 1"
    with p idx have "k \<noteq> ?a" "k \<noteq> ?b" by linarith+
    moreover from k p le have "arr1 ! k \<le> ?pivot" by (simp add: range_le_def)
    ultimately show "arr' ! k \<le> ?pivot" by (simp add: arr')
  qed
  moreover have "range_ge arr' (p + 1) high (arr' ! nat p)"
    unfolding range_ge_def at_p
  proof (intro allI impI)
    fix k :: nat assume k: "p + 1 \<le> int k \<and> int k \<le> high"
    show "?pivot \<le> arr' ! k"
    proof (cases "k = ?b")
      case True
      from k p idx have "i < int ?a \<and> int ?a < high" by linarith
      with gt have "?pivot < arr1 ! ?a" by blast
      with True idx show ?thesis by (simp add: arr')
    next
      case False
      with k p idx have "i < int k \<and> int k < high" "k \<noteq> ?a" by linarith+
      with gt False show ?thesis by (simp add: arr' less_imp_le)
    qed
  qed
  moreover have "same_outside arr' arr low high"
  proof -
    have "same_outside arr arr low high" by (simp add: same_outside_def)
    then have "same_outside arr1 arr low high" by (rule out)
    then show ?thesis unfolding arr' using idx by (simp add: swap_same_outside)
  qed
  moreover have "range_le arr' low high x" if "range_le arr low high x" for x
    unfolding arr' using ub [OF that] idx by (simp add: swap_range_le)
  moreover have "range_ge arr' low high x" if "range_ge arr low high x" for x
    unfolding arr' using lb [OF that] idx by (simp add: swap_range_ge)
  moreover have "mset arr' = mset arr"
    using idx ms by (simp add: arr' mset_swap)
  ultimately show ?thesis
    using p bnd len by (simp add: arr')
qed


lemma same_outside_trans:
  assumes "same_outside c b l h" and "same_outside b a l' h'"
      and "low \<le> l" "h \<le> high" "low \<le> l'" "h' \<le> high"
  shows "same_outside c a low high"
  using assms unfolding same_outside_def by auto

lemma range_le_widen:
  assumes "same_outside r a l h" and "\<forall>x. range_le a l h x \<longrightarrow> range_le r l h x"
      and "low \<le> l" "h \<le> high" and "range_le a low high x"
  shows "range_le r low high x"
proof -
  from assms(3-5) have "range_le a l h x" unfolding range_le_def by auto
  with assms(2) have inner: "range_le r l h x" by blast
  show ?thesis
    unfolding range_le_def
  proof (intro allI impI)
    fix k :: nat assume k: "low \<le> int k \<and> int k \<le> high"
    show "r ! k \<le> x"
    proof (cases "l \<le> int k \<and> int k \<le> h")
      case True
      with inner show ?thesis by (simp add: range_le_def)
    next
      case False
      with assms(1) have "r ! k = a ! k" unfolding same_outside_def by auto
      with k assms(5) show ?thesis by (simp add: range_le_def)
    qed
  qed
qed

lemma range_ge_widen:
  assumes "same_outside r a l h" and "\<forall>x. range_ge a l h x \<longrightarrow> range_ge r l h x"
      and "low \<le> l" "h \<le> high" and "range_ge a low high x"
  shows "range_ge r low high x"
proof -
  from assms(3-5) have "range_ge a l h x" unfolding range_ge_def by auto
  with assms(2) have inner: "range_ge r l h x" by blast
  show ?thesis
    unfolding range_ge_def
  proof (intro allI impI)
    fix k :: nat assume k: "low \<le> int k \<and> int k \<le> high"
    show "x \<le> r ! k"
    proof (cases "l \<le> int k \<and> int k \<le> h")
      case True
      with inner show ?thesis by (simp add: range_ge_def)
    next
      case False
      with assms(1) have "r ! k = a ! k" unfolding same_outside_def by auto
      with k assms(5) show ?thesis by (simp add: range_ge_def)
    qed
  qed
qed

definition sorts_range :: "int list \<Rightarrow> int list \<Rightarrow> int \<Rightarrow> int \<Rightarrow> bool" where
  "sorts_range r arr low high \<longleftrightarrow>
     length r = length arr \<and> mset r = mset arr
   \<and> same_outside r arr low high
   \<and> range_sorted r low high
   \<and> (\<forall>x. range_le arr low high x \<longrightarrow> range_le r low high x)
   \<and> (\<forall>x. range_ge arr low high x \<longrightarrow> range_ge r low high x)"

lemma quick_sort_recursive_correct:
  "0 \<le> low \<Longrightarrow> high < int (length arr) \<Longrightarrow>
   sorts_range (quick_sort_recursive arr low high) arr low high"
proof (induction arr low high rule: quick_sort_recursive.induct)
  case (1 arr low high)
  show ?case
  proof (cases "low < high")
    case False
    have "range_sorted arr low high"
      unfolding range_sorted_def
    proof (intro allI impI)
      fix k l :: nat assume "low \<le> int k \<and> k \<le> l \<and> int l \<le> high"
      with False have "k = l" by linarith
      then show "arr ! k \<le> arr ! l" by simp
    qed
    with False show ?thesis
      by (subst quick_sort_recursive.simps) (simp add: sorts_range_def same_outside_def)
  next
    case True
    obtain arr1 p where part: "partition_c arr low high = (arr1, p)"
      by (cases "partition_c arr low high") blast
    let ?r1 = "quick_sort_recursive arr1 low (p - 1)"
    let ?r2 = "quick_sort_recursive ?r1 (p + 1) high"
    let ?v = "arr1 ! nat p"
    from True part have res: "quick_sort_recursive arr low high = ?r2"
      by (subst quick_sort_recursive.simps) simp
    from partition_correct [OF part "1.prems"(1) _ "1.prems"(2)] True
    have p: "low \<le> p" "p \<le> high"
      and len1: "length arr1 = length arr" and ms1: "mset arr1 = mset arr"
      and out1: "same_outside arr1 arr low high"
      and le1: "range_le arr1 low (p - 1) ?v"
      and ge1: "range_ge arr1 (p + 1) high ?v"
      and ub1: "\<forall>x. range_le arr low high x \<longrightarrow> range_le arr1 low high x"
      and lb1: "\<forall>x. range_ge arr low high x \<longrightarrow> range_ge arr1 low high x"
      by simp_all
    have "sorts_range ?r1 arr1 low (p - 1)"
      using "1.IH"(1) [OF True part [symmetric]] "1.prems" p len1 by simp
    then have len2: "length ?r1 = length arr1" and ms2: "mset ?r1 = mset arr1"
      and out2: "same_outside ?r1 arr1 low (p - 1)"
      and so2: "range_sorted ?r1 low (p - 1)"
      and ub2: "\<forall>x. range_le arr1 low (p - 1) x \<longrightarrow> range_le ?r1 low (p - 1) x"
      and lb2: "\<forall>x. range_ge arr1 low (p - 1) x \<longrightarrow> range_ge ?r1 low (p - 1) x"
      by (simp_all add: sorts_range_def)
    have "sorts_range ?r2 ?r1 (p + 1) high"
      using "1.IH"(2) [OF True part [symmetric]] "1.prems" p len1 len2 by simp
    then have len3: "length ?r2 = length ?r1" and ms3: "mset ?r2 = mset ?r1"
      and out3: "same_outside ?r2 ?r1 (p + 1) high"
      and so3: "range_sorted ?r2 (p + 1) high"
      and ub3: "\<forall>x. range_le ?r1 (p + 1) high x \<longrightarrow> range_le ?r2 (p + 1) high x"
      and lb3: "\<forall>x. range_ge ?r1 (p + 1) high x \<longrightarrow> range_ge ?r2 (p + 1) high x"
      by (simp_all add: sorts_range_def)
    have p0: "0 \<le> p" using p "1.prems"(1) by simp
    have left: "r2k = r1k" if "r2k = ?r2 ! k" "r1k = ?r1 ! k" "int k \<le> p" for k r2k r1k
      using out3 that unfolding same_outside_def by simp
    have r1_le: "range_le ?r1 low (p - 1) ?v" using ub2 le1 by blast
    have r1_p: "?r1 ! nat p = ?v" using out2 p "1.prems"(1) unfolding same_outside_def by simp
    have "range_ge ?r1 (p + 1) high ?v"
      using ge1 out2 unfolding range_ge_def same_outside_def by simp
    with lb3 have r2_ge: "range_ge ?r2 (p + 1) high ?v" by blast
    have sorted: "range_sorted ?r2 low high"
      unfolding range_sorted_def
    proof (intro allI impI)
      fix k l :: nat assume kl: "low \<le> int k \<and> k \<le> l \<and> int l \<le> high"
      have val_left: "?r2 ! j \<le> ?v" if "low \<le> int j" "int j \<le> p" for j :: nat
      proof (cases "int j = p")
        case True
        then have "j = nat p" by simp
        with left [of "?r2 ! j" j "?r1 ! j"] that r1_p p0 show ?thesis by simp
      next
        case False
        with that have "int j \<le> p - 1" by simp
        with r1_le that have "?r1 ! j \<le> ?v" by (simp add: range_le_def)
        with left [of "?r2 ! j" j "?r1 ! j"] that show ?thesis by simp
      qed
      have val_right: "?v \<le> ?r2 ! j" if "p \<le> int j" "int j \<le> high" for j :: nat
      proof (cases "int j = p")
        case True
        then have "j = nat p" by simp
        with left [of "?r2 ! j" j "?r1 ! j"] that r1_p p0 show ?thesis by simp
      next
        case False
        with that have "p + 1 \<le> int j" by simp
        with r2_ge that show ?thesis by (simp add: range_ge_def)
      qed
      consider "int l < p" | "int k \<le> p \<and> p \<le> int l" | "p < int k" by linarith
      then show "?r2 ! k \<le> ?r2 ! l"
      proof cases
        case 1
        with kl so2 have "?r1 ! k \<le> ?r1 ! l" by (simp add: range_sorted_def)
        with 1 kl left [of "?r2 ! k" k "?r1 ! k"] left [of "?r2 ! l" l "?r1 ! l"]
        show ?thesis by simp
      next
        case 2
        with kl val_left [of k] val_right [of l] show ?thesis by simp
      next
        case 3
        with kl so3 show ?thesis by (simp add: range_sorted_def)
      qed
    qed
    have out: "same_outside ?r2 arr low high"
    proof -
      have "same_outside ?r2 arr1 low high"
        using same_outside_trans [OF out3 out2, of low high] p by simp
      then show ?thesis
        using same_outside_trans [OF _ out1, of ?r2 low high low high] by simp
    qed
    have ub: "range_le ?r2 low high x" if "range_le arr low high x" for x
    proof -
      from that ub1 have "range_le arr1 low high x" by blast
      with p have "range_le ?r1 low high x"
        using range_le_widen [OF out2 ub2, of low high x] by simp
      with p show ?thesis
        using range_le_widen [OF out3 ub3, of low high x] by simp
    qed
    have lb: "range_ge ?r2 low high x" if "range_ge arr low high x" for x
    proof -
      from that lb1 have "range_ge arr1 low high x" by blast
      with p have "range_ge ?r1 low high x"
        using range_ge_widen [OF out2 lb2, of low high x] by simp
      with p show ?thesis
        using range_ge_widen [OF out3 lb3, of low high x] by simp
    qed
    show ?thesis
      unfolding res sorts_range_def
      using len1 len2 len3 ms1 ms2 ms3 out sorted ub lb by simp
  qed
qed

lemma quick_sort_sorts: "quick_sort data (length data) = sort data"
proof -
  let ?r = "quick_sort_recursive data 0 (int (length data) - 1)"
  have "sorts_range ?r data 0 (int (length data) - 1)"
    by (rule quick_sort_recursive_correct) simp_all
  then have len: "length ?r = length data" and ms: "mset ?r = mset data"
    and so: "range_sorted ?r 0 (int (length data) - 1)"
    by (simp_all add: sorts_range_def)
  have "sorted ?r"
    unfolding sorted_iff_nth_mono
  proof (intro allI impI)
    fix i j assume "i \<le> j" "j < length ?r"
    with so len show "?r ! i \<le> ?r ! j" by (simp add: range_sorted_def)
  qed
  with ms show ?thesis by (simp add: quick_sort_def properties_for_sort)
qed

subsection \<open>One pass of the radix sort is a bucket sort\<close>

lemma c_div_pos: "0 \<le> a \<Longrightarrow> 0 < b \<Longrightarrow> c_div a b = a div b"
  by (cases "a = 0") (simp_all add: c_div_def)

lemma digit_pos: "0 \<le> a \<Longrightarrow> 0 < exp \<Longrightarrow> digit a exp = (a div exp) mod 10"
proof -
  assume a: "0 \<le> a" and e: "0 < exp"
  then have "0 \<le> a div exp" by (simp add: pos_imp_zdiv_nonneg_iff)
  then have "c_div (a div exp) 10 = (a div exp) div 10" by (simp add: c_div_pos)
  with a e show ?thesis
    by (simp add: digit_def c_mod_def c_div_pos minus_mult_div_eq_mod)
qed

text \<open>The bucket of an element, the size of a bucket and the number of elements below it.\<close>

definition bucket :: "int \<Rightarrow> int \<Rightarrow> nat" where
  "bucket exp a = nat (digit a exp)"

definition bucket_list :: "int \<Rightarrow> nat \<Rightarrow> int list \<Rightarrow> int list" where
  "bucket_list exp d xs = filter (\<lambda>a. bucket exp a = d) xs"

definition below :: "int \<Rightarrow> nat \<Rightarrow> int list \<Rightarrow> nat" where
  "below exp d xs = length (filter (\<lambda>a. bucket exp a < d) xs)"

definition bucket_sort :: "int \<Rightarrow> int list \<Rightarrow> int list" where
  "bucket_sort exp xs = concat (map (\<lambda>d. bucket_list exp d xs) [0..<10])"

lemma bucket_less_10: "0 \<le> a \<Longrightarrow> 0 < exp \<Longrightarrow> bucket exp a < 10"
  by (simp add: bucket_def digit_pos nat_less_iff)

lemma below_0 [simp]: "below exp 0 xs = 0"
  by (simp add: below_def)

lemma below_Suc: "below exp (Suc d) xs = below exp d xs + length (bucket_list exp d xs)"
  unfolding below_def bucket_list_def
  by (induction xs) (auto simp: less_Suc_eq)

lemma below_mono: "d \<le> e \<Longrightarrow> below exp d xs \<le> below exp e xs"
  unfolding below_def
  by (induction xs) auto

lemma below_all:
  "\<forall>a\<in>set xs. bucket exp a < d \<Longrightarrow> below exp d xs = length xs"
  by (simp add: below_def)

lemma below_le_length: "below exp d xs \<le> length xs"
  by (simp add: below_def)

text \<open>First loop: occurrences are counted.\<close>

lemma count_loop_correct:
  assumes "sz = length arr" and "length cnt = 10" and "i \<le> sz"
      and "\<forall>a\<in>set arr. bucket exp a < 10"
  shows "length (count_loop arr exp cnt i sz) = 10
       \<and> (\<forall>d<10. count_loop arr exp cnt i sz ! d =
                   cnt ! d + int (length (bucket_list exp d (drop i arr))))"
  using assms
proof (induction arr exp cnt i sz rule: count_loop.induct)
  case (1 arr exp cnt i sz)
  show ?case
  proof (cases "i < sz")
    case False
    with "1.prems" show ?thesis
      by (subst (1 2) count_loop.simps) (simp add: bucket_list_def)
  next
    case True
    let ?d = "nat (digit (arr ! i) exp)"
    let ?cnt = "cnt[?d := cnt ! ?d + 1]"
    from True "1.prems" have d: "?d < 10" "bucket exp (arr ! i) = ?d"
      by (simp_all add: bucket_def)
    from True "1.prems" have dr: "drop i arr = arr ! i # drop (i + 1) arr"
      by (simp add: Cons_nth_drop_Suc)
    from "1.IH" [OF True] True "1.prems" have
      ih: "length (count_loop arr exp ?cnt (i + 1) sz) = 10
         \<and> (\<forall>d<10. count_loop arr exp ?cnt (i + 1) sz ! d =
                   ?cnt ! d + int (length (bucket_list exp d (drop (i + 1) arr))))"
      by simp
    have step: "count_loop arr exp cnt i sz = count_loop arr exp ?cnt (i + 1) sz"
      using True by (subst count_loop.simps) simp
    show ?thesis
      unfolding step
    proof (intro conjI allI impI)
      show "length (count_loop arr exp ?cnt (i + 1) sz) = 10" using ih by simp
    next
      fix e :: nat assume e: "e < 10"
      with ih have "count_loop arr exp ?cnt (i + 1) sz ! e =
          ?cnt ! e + int (length (bucket_list exp e (drop (i + 1) arr)))" by simp
      also have "\<dots> = cnt ! e + int (length (bucket_list exp e (drop i arr)))"
        using d e "1.prems"(2) by (auto simp: dr bucket_list_def nth_list_update)
      finally show "count_loop arr exp ?cnt (i + 1) sz ! e =
          cnt ! e + int (length (bucket_list exp e (drop i arr)))" .
    qed
  qed
qed

text \<open>Second loop: running totals.\<close>

lemma prefix_loop_correct:
  assumes "length cnt = 10" and "1 \<le> i" and "i \<le> 10"
      and "\<forall>d<i. cnt ! d = int (below exp (Suc d) xs)"
      and "\<forall>d. i \<le> d \<and> d < 10 \<longrightarrow> cnt ! d = int (length (bucket_list exp d xs))"
  shows "length (prefix_loop cnt i) = 10
       \<and> (\<forall>d<10. prefix_loop cnt i ! d = int (below exp (Suc d) xs))"
  using assms
proof (induction cnt i rule: prefix_loop.induct)
  case (1 cnt i)
  show ?case
  proof (cases "i < 10")
    case False
    with "1.prems" show ?thesis
      by (subst (1 2) prefix_loop.simps) simp
  next
    case True
    let ?cnt = "cnt[i := cnt ! i + cnt ! (i - 1)]"
    have at_i: "?cnt ! i = int (below exp (Suc i) xs)"
    proof -
      from "1.prems"(2) have "i - 1 < i" by simp
      with "1.prems"(4) have "cnt ! (i - 1) = int (below exp (Suc (i - 1)) xs)" by blast
      with "1.prems"(2) have "cnt ! (i - 1) = int (below exp i xs)" by simp
      moreover from "1.prems"(5) True have "cnt ! i = int (length (bucket_list exp i xs))"
        by simp
      ultimately show ?thesis
        using "1.prems"(1) True by (simp add: below_Suc)
    qed
    have low: "\<forall>d<i + 1. ?cnt ! d = int (below exp (Suc d) xs)"
    proof (intro allI impI)
      fix d assume "d < i + 1"
      then consider "d < i" | "d = i" by linarith
      then show "?cnt ! d = int (below exp (Suc d) xs)"
      proof cases
        case 1
        with "1.prems" show ?thesis by simp
      next
        case 2
        with at_i show ?thesis by simp
      qed
    qed
    have high: "\<forall>d. i + 1 \<le> d \<and> d < 10 \<longrightarrow> ?cnt ! d = int (length (bucket_list exp d xs))"
      using "1.prems" by simp
    from "1.IH" [OF True _ _ _ low high] True "1.prems"
    have "length (prefix_loop ?cnt (i + 1)) = 10
       \<and> (\<forall>d<10. prefix_loop ?cnt (i + 1) ! d = int (below exp (Suc d) xs))"
      by simp
    with True show ?thesis
      by (subst (1 2) prefix_loop.simps) simp
  qed
qed


text \<open>
  Third loop: when the elements from index \<open>n\<close> on have been placed, the counter of a bucket
  points at the first cell the bucket has filled, and the cells from there to the end of
  the bucket hold the placed elements of the bucket in their order in \<open>arr\<close>.
\<close>

definition placed :: "int \<Rightarrow> int list \<Rightarrow> int list \<Rightarrow> int list \<Rightarrow> nat \<Rightarrow> bool" where
  "placed exp arr cnt output n \<longleftrightarrow>
     length cnt = 10 \<and> length arr \<le> length output \<and> n \<le> length arr
   \<and> (\<forall>d<10. cnt ! d = int (below exp d arr + length (bucket_list exp d (take n arr)))
            \<and> take (below exp (Suc d) arr - nat (cnt ! d)) (drop (nat (cnt ! d)) output)
                = bucket_list exp d (drop n arr))"

lemma bucket_list_take_le:
  "length (bucket_list exp d (take n xs)) \<le> length (bucket_list exp d xs)"
proof -
  have "bucket_list exp d xs = bucket_list exp d (take n xs) @ bucket_list exp d (drop n xs)"
    unfolding bucket_list_def by (metis append_take_drop_id filter_append)
  then show ?thesis by simp
qed

lemma take_drop_update_outside:
  "p < m \<or> m + k \<le> p \<Longrightarrow> take k (drop m (xs[p := v])) = take k (drop m xs)"
  by (auto simp: drop_update_swap)

lemma place_step:
  assumes inv: "placed exp arr cnt output (Suc n)"
      and buckets: "\<forall>a\<in>set arr. bucket exp a < 10"
  shows "placed exp arr
           (cnt[bucket exp (arr ! n) := cnt ! bucket exp (arr ! n) - 1])
           (output[nat (cnt ! bucket exp (arr ! n) - 1) := arr ! n])
           n"
proof -
  let ?a = "arr ! n" and ?d0 = "bucket exp (arr ! n)"
  let ?B = "bucket_list exp" and ?below = "\<lambda>d. below exp d arr"
  let ?pos = "?below ?d0 + length (?B ?d0 (take n arr))"
  from inv have len: "length cnt = 10" "length arr \<le> length output" "n < length arr"
    and cnt: "\<And>d. d < 10 \<Longrightarrow> cnt ! d = int (?below d + length (?B d (take (Suc n) arr)))"
    and seg: "\<And>d. d < 10 \<Longrightarrow>
                take (?below (Suc d) - nat (cnt ! d)) (drop (nat (cnt ! d)) output)
                = ?B d (drop (Suc n) arr)"
    unfolding placed_def by (simp, simp, simp, blast, blast)
  from len buckets have d0: "?d0 < 10" by simp
  have tk: "take (Suc n) arr = take n arr @ [?a]"
    using len by (simp add: take_Suc_conv_app_nth)
  have dr: "drop n arr = ?a # drop (Suc n) arr"
    using len by (simp add: Cons_nth_drop_Suc)
  have c0: "cnt ! ?d0 = int (Suc ?pos)"
    using cnt [OF d0] by (simp add: tk bucket_list_def)
  have pos: "nat (cnt ! ?d0 - 1) = ?pos" using c0 by simp
  have n0: "nat (cnt ! ?d0) = Suc ?pos" using c0 by (simp only: nat_int)
  have top: "?below d + length (?B d (take k arr)) \<le> ?below (Suc d)" for d k
    using bucket_list_take_le [of exp d k arr] by (simp add: below_Suc)
  have pos_lt: "Suc ?pos \<le> ?below (Suc ?d0)"
    using top [of ?d0 "Suc n"] by (simp add: tk bucket_list_def)
  have pos_len: "?pos < length output"
    using pos_lt below_le_length [of exp "Suc ?d0" arr] len by linarith
  let ?cnt = "cnt[?d0 := cnt ! ?d0 - 1]"
  let ?out = "output[?pos := ?a]"
  have "?cnt ! d = int (?below d + length (?B d (take n arr)))
      \<and> take (?below (Suc d) - (?below d + length (?B d (take n arr))))
           (drop (?below d + length (?B d (take n arr))) ?out)
          = ?B d (drop n arr)" if d: "d < 10" for d
  proof (cases "d = ?d0")
    case True
    have c: "?cnt ! d = int ?pos" using True len d0 c0 by simp
    have "drop ?pos ?out = ?a # drop (Suc ?pos) output"
      using pos_len by (simp add: drop_update_swap [symmetric] Cons_nth_drop_Suc [symmetric]
          upd_conv_take_nth_drop)
    moreover have "?below (Suc ?d0) - ?pos = Suc (?below (Suc ?d0) - Suc ?pos)"
      using pos_lt by simp
    ultimately have "take (?below (Suc ?d0) - ?pos) (drop ?pos ?out)
        = ?a # take (?below (Suc ?d0) - Suc ?pos) (drop (Suc ?pos) output)"
      by simp
    also have "\<dots> = ?a # ?B ?d0 (drop (Suc n) arr)"
      using seg [OF d0, unfolded n0] by simp
    also have "\<dots> = ?B ?d0 (drop n arr)"
      by (simp add: dr bucket_list_def)
    finally show ?thesis using c True by simp
  next
    case False
    have same: "?B d (take (Suc n) arr) = ?B d (take n arr)"
      using False by (simp add: tk bucket_list_def)
    have c: "?cnt ! d = int (?below d + length (?B d (take n arr)))"
      using False cnt [OF d] same by simp
    let ?m = "?below d + length (?B d (take n arr))"
    have nd: "nat (cnt ! d) = ?m"
      using cnt [OF d] by (simp only: same nat_int)
    have outside: "?pos < ?m \<or> ?m + (?below (Suc d) - ?m) \<le> ?pos"
    proof (cases "d < ?d0")
      case True
      then have "?below (Suc d) \<le> ?below ?d0" by (simp add: below_mono)
      moreover have "?m \<le> ?below (Suc d)" by (rule top)
      ultimately show ?thesis by simp
    next
      case False
      with \<open>d \<noteq> ?d0\<close> have "Suc ?d0 \<le> d" by simp
      then have "?below (Suc ?d0) \<le> ?below d" by (rule below_mono)
      with pos_lt show ?thesis by simp
    qed
    have "take (?below (Suc d) - ?m) (drop ?m ?out) = take (?below (Suc d) - ?m) (drop ?m output)"
      using outside by (rule take_drop_update_outside)
    also have "\<dots> = ?B d (drop (Suc n) arr)"
      using seg [OF d, unfolded nd] .
    also have "\<dots> = ?B d (drop n arr)"
      using False by (simp add: dr bucket_list_def)
    finally show ?thesis using c by simp
  qed
  then show ?thesis
    using len unfolding placed_def pos by (simp add: nat_int_add)
qed

lemma place_loop_correct:
  assumes "placed exp arr cnt outp n" and "i = int n - 1"
      and "\<forall>a\<in>set arr. bucket exp a < 10"
  shows "length (place_loop arr exp cnt outp i) = length outp
       \<and> (\<forall>d<10. take (below exp (Suc d) arr - below exp d arr)
                    (drop (below exp d arr) (place_loop arr exp cnt outp i))
                  = bucket_list exp d arr)"
  using assms
proof (induction arr exp cnt outp i arbitrary: n rule: place_loop.induct)
  case (1 arr exp cnt outp i)
  show ?case
  proof (cases "i \<ge> 0")
    case False
    with "1.prems" have "n = 0" by simp
    with "1.prems"(1) have "\<forall>d<10. take (below exp (Suc d) arr - below exp d arr)
                    (drop (below exp d arr) outp) = bucket_list exp d arr"
      by (auto simp: placed_def bucket_list_def)
    with False show ?thesis
      by (subst (1 2) place_loop.simps) simp
  next
    case True
    with "1.prems" obtain n' where n: "n = Suc n'" "nat i = n'" "i - 1 = int n' - 1"
      by (cases n) auto
    let ?d = "nat (digit (arr ! nat i) exp)"
    let ?cnt = "cnt[?d := cnt ! ?d - 1]"
    let ?out = "outp[nat (cnt ! ?d - 1) := arr ! nat i]"
    have "placed exp arr ?cnt ?out n'"
      using place_step [of exp arr cnt outp n'] "1.prems" n
      by (simp add: bucket_def)
    from "1.IH" [OF True this n(3) "1.prems"(3)]
    have "length (place_loop arr exp ?cnt ?out (i - 1)) = length outp
       \<and> (\<forall>d<10. take (below exp (Suc d) arr - below exp d arr)
                    (drop (below exp d arr) (place_loop arr exp ?cnt ?out (i - 1)))
                  = bucket_list exp d arr)"
      by simp
    with True show ?thesis
      by (subst (1 2) place_loop.simps) simp
  qed
qed


text \<open>Fourth loop: the first \<open>size\<close> cells of \<open>output\<close> are copied back.\<close>

lemma copy_loop_nth:
  "sz = length arr \<Longrightarrow>
   length (copy_loop arr outp i sz) = length arr
   \<and> (\<forall>k<length arr. copy_loop arr outp i sz ! k = (if i \<le> k then outp ! k else arr ! k))"
proof (induction arr outp i sz rule: copy_loop.induct)
  case (1 arr outp i sz)
  show ?case
  proof (cases "i < sz")
    case False
    with "1.prems" show ?thesis
      by (subst (1 2) copy_loop.simps) simp
  next
    case True
    from "1.IH" [OF True] "1.prems"
    have "length (copy_loop (arr[i := outp ! i]) outp (i + 1) sz) = length arr
       \<and> (\<forall>k<length arr. copy_loop (arr[i := outp ! i]) outp (i + 1) sz ! k =
              (if i + 1 \<le> k then outp ! k else arr[i := outp ! i] ! k))"
      by simp
    then have "length (copy_loop (arr[i := outp ! i]) outp (i + 1) sz) = length arr
       \<and> (\<forall>k<length arr. copy_loop (arr[i := outp ! i]) outp (i + 1) sz ! k =
              (if i \<le> k then outp ! k else arr ! k))"
      by (auto simp: nth_list_update not_less_eq_eq dest: le_antisym)
    with True show ?thesis
      by (subst (1 2) copy_loop.simps) simp
  qed
qed

lemma copy_loop_take:
  assumes "sz = length arr" and "sz \<le> length outp"
  shows "copy_loop arr outp 0 sz = take sz outp"
proof (rule nth_equalityI)
  show "length (copy_loop arr outp 0 sz) = length (take sz outp)"
    using assms copy_loop_nth [OF assms(1), of outp 0] by simp
next
  fix k assume "k < length (copy_loop arr outp 0 sz)"
  then show "copy_loop arr outp 0 sz ! k = take sz outp ! k"
    using assms copy_loop_nth [OF assms(1), of outp 0] by simp
qed

lemma buckets_assemble:
  assumes "\<forall>d<10. take (below exp (Suc d) arr - below exp d arr) (drop (below exp d arr) r)
                  = bucket_list exp d arr"
  shows "k \<le> 10 \<Longrightarrow> take (below exp k arr) r = concat (map (\<lambda>d. bucket_list exp d arr) [0..<k])"
proof (induction k)
  case 0
  show ?case by simp
next
  case (Suc k)
  have "below exp (Suc k) arr = below exp k arr + (below exp (Suc k) arr - below exp k arr)"
    using below_mono [of k "Suc k" exp arr] by simp
  then have "take (below exp (Suc k) arr) r =
      take (below exp k arr) r @
      take (below exp (Suc k) arr - below exp k arr) (drop (below exp k arr) r)"
    by (metis take_add)
  with Suc assms show ?case by simp
qed

lemma counting_sort_is_bucket_sort:
  assumes "sz = length arr" and "length arr \<le> MAX_DATA_SIZE"
      and "\<forall>a\<in>set arr. bucket exp a < 10"
  shows "counting_sort_for_radix arr sz exp = bucket_sort exp arr"
proof -
  let ?outp = "replicate MAX_DATA_SIZE (0::int)"
  let ?cnt1 = "count_loop arr exp (replicate 10 0) 0 sz"
  let ?cnt2 = "prefix_loop ?cnt1 1"
  let ?out1 = "place_loop arr exp ?cnt2 ?outp (int sz - 1)"
  have c1: "length ?cnt1 = 10"
    "\<And>d. d < 10 \<Longrightarrow> ?cnt1 ! d = int (length (bucket_list exp d arr))"
    using count_loop_correct [OF assms(1) _ _ assms(3), of "replicate 10 0" 0] by simp_all
  have "length ?cnt2 = 10 \<and> (\<forall>d<10. ?cnt2 ! d = int (below exp (Suc d) arr))"
  proof (rule prefix_loop_correct)
    show "\<forall>d<1. ?cnt1 ! d = int (below exp (Suc d) arr)"
      using c1(2) [of 0] by (simp add: below_Suc)
    show "\<forall>d. 1 \<le> d \<and> d < 10 \<longrightarrow> ?cnt1 ! d = int (length (bucket_list exp d arr))"
      using c1(2) by simp
  qed (simp_all add: c1)
  then have c2: "length ?cnt2 = 10" "\<And>d. d < 10 \<Longrightarrow> ?cnt2 ! d = int (below exp (Suc d) arr)"
    by simp_all
  have "placed exp arr ?cnt2 ?outp sz"
    unfolding placed_def
    using assms(1,2) c2 by (simp add: below_Suc bucket_list_def)
  from place_loop_correct [OF this _ assms(3), of "int sz - 1"]
  have o1: "length ?out1 = MAX_DATA_SIZE"
    and seg: "\<forall>d<10. take (below exp (Suc d) arr - below exp d arr)
                    (drop (below exp d arr) ?out1) = bucket_list exp d arr"
    by simp_all
  have "counting_sort_for_radix arr sz exp = copy_loop arr ?out1 0 sz"
    by (simp add: counting_sort_for_radix_def Let_def)
  also have "\<dots> = take sz ?out1"
    using assms(1,2) o1 by (intro copy_loop_take) simp_all
  also have "\<dots> = take (below exp 10 arr) ?out1"
    using assms(1,3) by (simp add: below_all)
  also have "\<dots> = bucket_sort exp arr"
    unfolding bucket_sort_def by (rule buckets_assemble [OF seg]) simp
  finally show ?thesis .
qed

subsection \<open>Radix sort sorts\<close>

lemma bucket_div_mod: "0 \<le> a \<Longrightarrow> 0 < exp \<Longrightarrow> int (bucket exp a) = (a div exp) mod 10"
  by (simp add: bucket_def digit_pos)

lemma mset_filter_less_Suc:
  "filter_mset (\<lambda>a. f a < Suc n) M =
   filter_mset (\<lambda>a. f a < n) M + filter_mset (\<lambda>a. f a = n) M"
  by (induction M) (auto simp: less_Suc_eq)

lemma mset_buckets:
  "mset (concat (map (\<lambda>d. filter (\<lambda>a. f a = d) xs) [0..<n])) = mset (filter (\<lambda>a. f a < n) xs)"
  by (induction n) (simp_all add: mset_filter_less_Suc)

lemma mset_bucket_sort:
  "\<forall>a\<in>set xs. bucket exp a < 10 \<Longrightarrow> mset (bucket_sort exp xs) = mset xs"
  unfolding bucket_sort_def bucket_list_def
  by (simp only: mset_buckets) simp

lemma sorted_concat_blocks:
  assumes "\<forall>d\<in>set ds. sorted (map g (blk d))"
      and "\<forall>d e x y. d < e \<and> x \<in> set (blk d) \<and> y \<in> set (blk e) \<longrightarrow> g x \<le> g y"
      and "sorted_wrt (<) ds"
  shows "sorted (map g (concat (map blk ds)))"
  using assms
proof (induction ds)
  case Nil
  show ?case by simp
next
  case (Cons d ds)
  have "g x \<le> g y" if "x \<in> set (blk d)" "e \<in> set ds" "y \<in> set (blk e)" for x e y
  proof -
    from Cons.prems(3) that(2) have "d < e" by simp
    with Cons.prems(2) that show ?thesis by blast
  qed
  with Cons show ?case
    by (auto simp: sorted_append)
qed

lemma sorted_buckets:
  fixes g :: "int \<Rightarrow> int"
  assumes "\<And>d. d < 10 \<Longrightarrow> sorted (map g (bucket_list exp d xs))"
      and "\<And>d e x y. d < e \<Longrightarrow> x \<in> set xs \<Longrightarrow> y \<in> set xs \<Longrightarrow>
             bucket exp x = d \<Longrightarrow> bucket exp y = e \<Longrightarrow> g x \<le> g y"
  shows "sorted (map g (bucket_sort exp xs))"
  unfolding bucket_sort_def
proof (rule sorted_concat_blocks)
  show "\<forall>d\<in>set [0..<10]. sorted (map g (bucket_list exp d xs))"
    using assms(1) by simp
  show "\<forall>d e x y. d < e \<and> x \<in> set (bucket_list exp d xs) \<and> y \<in> set (bucket_list exp e xs)
          \<longrightarrow> g x \<le> g y"
    using assms(2) by (auto simp: bucket_list_def)
  show "sorted_wrt (<) [0..<10]"
    by (rule sorted_wrt_upt)
qed

text \<open>A pass on the digit of weight \<open>exp\<close> extends the sorted low part by that digit.\<close>

lemma low_part:
  assumes "0 \<le> a" and "0 < exp"
  shows "a mod (exp * 10) = exp * int (bucket exp a) + a mod exp"
  using assms by (simp add: bucket_div_mod zmod_zmult2_eq)

lemma pass_extends:
  assumes "0 < exp" and "\<forall>a\<in>set xs. 0 \<le> a"
      and "sorted (map (\<lambda>a. a mod exp) xs)"
  shows "sorted (map (\<lambda>a. a mod (exp * 10)) (bucket_sort exp xs))"
proof (rule sorted_buckets)
  fix d :: nat assume "d < 10"
  let ?ys = "bucket_list exp d xs"
  have "sorted (map (\<lambda>a. a mod exp) ?ys)"
    unfolding bucket_list_def using assms(3) by (rule sorted_filter)
  then have "sorted (map (\<lambda>a. exp * int d + a mod exp) ?ys)"
    by (simp add: sorted_iff_nth_mono)
  moreover have "map (\<lambda>a. a mod (exp * 10)) ?ys = map (\<lambda>a. exp * int d + a mod exp) ?ys"
    using assms(1,2) by (auto simp: bucket_list_def low_part)
  ultimately show "sorted (map (\<lambda>a. a mod (exp * 10)) ?ys)" by (simp only:)
next
  fix d e :: nat and x y :: int
  assume de: "d < e" and x: "x \<in> set xs" "bucket exp x = d" and y: "y \<in> set xs" "bucket exp y = e"
  have "x mod (exp * 10) = exp * int d + x mod exp"
    using assms(1,2) x by (simp add: low_part)
  also have "\<dots> < exp * int d + exp"
    using assms(1) by simp
  also have "\<dots> = exp * int (Suc d)"
    by (simp add: algebra_simps)
  also have "\<dots> \<le> exp * int e"
    using de assms(1) by (intro mult_left_mono) simp_all
  also have "\<dots> \<le> exp * int e + y mod exp"
    using assms(1) by simp
  also have "\<dots> = y mod (exp * 10)"
    using assms(1,2) y by (simp add: low_part)
  finally show "x mod (exp * 10) \<le> y mod (exp * 10)" by simp
qed

definition valid :: "int \<Rightarrow> int list \<Rightarrow> bool" where
  "valid m xs \<longleftrightarrow>
     (\<forall>a\<in>set xs. 0 \<le> a \<and> a < 2 ^ 31 \<and> a \<le> m) \<and> length xs \<le> MAX_DATA_SIZE"

lemma pass_step:
  assumes "valid m xs" and "0 < exp"
  shows "counting_sort_for_radix xs (length xs) exp = bucket_sort exp xs"
    and "valid m (bucket_sort exp xs)"
    and "sort (bucket_sort exp xs) = sort xs"
    and "length (bucket_sort exp xs) = length xs"
proof -
  from assms have b: "\<forall>a\<in>set xs. bucket exp a < 10"
    by (simp add: valid_def bucket_less_10)
  from assms(1) show "counting_sort_for_radix xs (length xs) exp = bucket_sort exp xs"
    by (intro counting_sort_is_bucket_sort b) (simp_all add: valid_def)
  have m: "mset (bucket_sort exp xs) = mset xs"
    using b by (rule mset_bucket_sort)
  from m have "set (bucket_sort exp xs) = set xs" by (rule mset_eq_setD)
  moreover from m show "length (bucket_sort exp xs) = length xs" by (rule mset_eq_length)
  ultimately show "valid m (bucket_sort exp xs)"
    using assms(1) by (simp add: valid_def)
  show "sort (bucket_sort exp xs) = sort xs"
    by (rule properties_for_sort) (simp_all add: m)
qed

lemma radix_stop:
  assumes "sorted xs" and "exp \<noteq> 0" and "\<not> c_div m exp > 0"
  shows "radix_loop xs sz m exp = Inr (sort xs)"
  using assms by (subst radix_loop.simps) (simp add: sort_key_id_if_sorted)

lemma radix_continue:
  assumes "valid m xs" and "0 < exp" and "c_div m exp > 0" and "exp * 10 \<le> INT_MAX"
  shows "radix_loop xs (length xs) m exp =
         radix_loop (bucket_sort exp xs) (length (bucket_sort exp xs)) m (exp * 10)"
  using assms pass_step(1,4) [OF assms(1,2)]
  by (subst radix_loop.simps) (simp add: INT_MIN_def)

lemma radix_overflow:
  assumes "0 < exp" and "c_div m exp > 0" and "INT_MAX < exp * 10"
  shows "radix_loop xs sz m exp = Inl SignedOverflow"
  using assms by (subst radix_loop.simps) simp

lemma c_div_positive_iff: "0 \<le> m \<Longrightarrow> 0 < exp \<Longrightarrow> c_div m exp > 0 \<longleftrightarrow> exp \<le> m"
  by (simp add: c_div_pos pos_imp_zdiv_pos_iff)

lemma power_10_le: "k \<le> 9 \<Longrightarrow> (10::int) ^ k \<le> 10 ^ 9"
  by (rule power_increasing) simp_all

lemma mod_small_map:
  assumes "\<forall>a\<in>set xs. 0 \<le> a \<and> a < (b::int)"
  shows "map (\<lambda>a. a mod b) xs = xs"
  using assms by (induction xs) simp_all

text \<open>
  While the maximum is below \<open>10 ^ 9\<close>, the loop stops at a power of ten that is at most
  \<open>10 ^ 9\<close>, with the array sorted.
\<close>

lemma radix_stage_pow:
  assumes "0 \<le> m" and "m < 10 ^ 9"
  shows "k + n = 9 \<Longrightarrow> valid m xs \<Longrightarrow> sorted (map (\<lambda>a. a mod 10 ^ k) xs) \<Longrightarrow>
         radix_loop xs (length xs) m (10 ^ k) = Inr (sort xs)"
proof (induction n arbitrary: k xs)
  case 0
  then have k: "k = 9" by simp
  with assms have stop: "\<not> c_div m (10 ^ k) > 0"
    by (simp add: c_div_positive_iff)
  from assms(2) k "0.prems"(2) have "\<forall>a\<in>set xs. 0 \<le> a \<and> a < 10 ^ k"
    by (auto simp: valid_def)
  then have "map (\<lambda>a. a mod 10 ^ k) xs = xs" by (rule mod_small_map)
  with "0.prems"(3) have "sorted xs" by simp
  with stop show ?case by (intro radix_stop) simp_all
next
  case (Suc n)
  then have k: "k < 9" and kn: "Suc k + n = 9" by simp_all
  have pos: "(0::int) < 10 ^ k" by simp
  show ?case
  proof (cases "c_div m (10 ^ k) > 0")
    case False
    with assms(1) have "m < 10 ^ k"
      by (simp add: c_div_positive_iff)
    with Suc.prems(2) have "\<forall>a\<in>set xs. 0 \<le> a \<and> a < 10 ^ k"
      by (auto simp: valid_def)
    then have "map (\<lambda>a. a mod 10 ^ k) xs = xs" by (rule mod_small_map)
    with Suc.prems(3) have "sorted xs" by simp
    with False show ?thesis by (intro radix_stop) simp_all
  next
    case True
    let ?ys = "bucket_sort (10 ^ k) xs"
    have v: "valid m ?ys" by (rule pass_step(2) [OF Suc.prems(2) pos])
    have "sorted (map (\<lambda>a. a mod (10 ^ k * 10)) ?ys)"
      using pos _ Suc.prems(3) by (rule pass_extends) (use Suc.prems(2) in \<open>simp add: valid_def\<close>)
    then have "sorted (map (\<lambda>a. a mod 10 ^ Suc k) ?ys)"
      by (simp add: mult.commute)
    with Suc.IH [OF kn v]
    have next_pass: "radix_loop ?ys (length ?ys) m (10 ^ Suc k) = Inr (sort ?ys)" .
    from k have "(10::int) ^ Suc k \<le> 10 ^ 9" by (intro power_10_le) simp
    then have fits: "(10::int) ^ k * 10 \<le> INT_MAX"
      by (simp add: INT_MAX_def mult.commute)
    have "10 ^ k * 10 = (10::int) ^ Suc k" by simp
    with next_pass show ?thesis
      by (simp only: radix_continue [OF Suc.prems(2) pos True fits]
          pass_step(3) [OF Suc.prems(2) pos])
  qed
qed

lemma radix_loop_sorts:
  assumes "valid m xs" and "0 \<le> m" and "m < 10 ^ 9"
  shows "radix_loop xs (length xs) m 1 = Inr (sort xs)"
proof -
  have "sorted (map (\<lambda>a. a mod 10 ^ 0) xs)"
    by (induction xs) simp_all
  with radix_stage_pow [OF assms(2,3), of 0 9 xs] assms(1) show ?thesis by simp
qed

text \<open>
  When the maximum is \<open>10 ^ 9\<close> or more, the loop is still running at \<open>exp = 10 ^ 9\<close>, and
  the multiplication by 10 that follows that pass leaves the range of \<open>int\<close>.
\<close>

lemma radix_loop_overflows:
  assumes "10 ^ 9 \<le> m"
  shows "k + n = 9 \<Longrightarrow> valid m xs \<Longrightarrow> radix_loop xs (length xs) m (10 ^ k) = Inl SignedOverflow"
proof (induction n arbitrary: k xs)
  case 0
  then have k: "k = 9" by simp
  with assms(1) have "c_div m (10 ^ k) > 0"
    by (simp add: c_div_positive_iff)
  moreover have "INT_MAX < 10 ^ k * 10"
    using k by (simp add: INT_MAX_def)
  ultimately show ?case by (intro radix_overflow) simp_all
next
  case (Suc n)
  then have k: "k < 9" and kn: "Suc k + n = 9" by simp_all
  have pos: "(0::int) < 10 ^ k" by simp
  from k have "(10::int) ^ k \<le> 10 ^ 9" by (intro power_10_le) simp
  with assms(1) have run: "c_div m (10 ^ k) > 0"
    by (simp add: c_div_positive_iff)
  let ?ys = "bucket_sort (10 ^ k) xs"
  have v: "valid m ?ys" by (rule pass_step(2) [OF Suc.prems(2) pos])
  from k have "(10::int) ^ Suc k \<le> 10 ^ 9" by (intro power_10_le) simp
  then have fits: "(10::int) ^ k * 10 \<le> INT_MAX"
    by (simp add: INT_MAX_def mult.commute)
  from Suc.IH [OF kn v]
  have "radix_loop ?ys (length ?ys) m (10 ^ Suc k) = Inl SignedOverflow" .
  moreover have "10 ^ k * 10 = (10::int) ^ Suc k" by simp
  ultimately show ?case
    by (simp only: radix_continue [OF Suc.prems(2) pos run fits])
qed

lemma max_loop_bound:
  "sz = length data \<Longrightarrow>
   m \<le> max_loop data m i sz \<and> (\<forall>k. i \<le> k \<and> k < sz \<longrightarrow> data ! k \<le> max_loop data m i sz)"
proof (induction data m i sz rule: max_loop.induct)
  case (1 data m i sz)
  show ?case
  proof (cases "i < sz")
    case False
    then show ?thesis by (simp add: max_loop.simps)
  next
    case True
    let ?m = "if data ! i > m then data ! i else m"
    from "1.IH" [OF True "1.prems"]
    have ih: "?m \<le> max_loop data ?m (i + 1) sz"
      "\<And>k. i + 1 \<le> k \<Longrightarrow> k < sz \<Longrightarrow> data ! k \<le> max_loop data ?m (i + 1) sz"
      by simp_all
    have eq: "max_loop data m i sz = max_loop data ?m (i + 1) sz"
      using True by (subst max_loop.simps) simp
    have "data ! k \<le> max_loop data ?m (i + 1) sz" if "i \<le> k" "k < sz" for k
    proof (cases "k = i")
      case True
      with ih(1) show ?thesis by (simp split: if_splits)
    next
      case False
      with that ih(2) [of k] show ?thesis by simp
    qed
    moreover from ih(1) have "m \<le> max_loop data ?m (i + 1) sz"
      by (simp split: if_splits)
    ultimately show ?thesis
      unfolding eq by blast
  qed
qed

lemma max_loop_mem:
  "sz = length data \<Longrightarrow> max_loop data m i sz = m \<or> max_loop data m i sz \<in> set data"
proof (induction data m i sz rule: max_loop.induct)
  case (1 data m i sz)
  show ?case
  proof (cases "i < sz")
    case False
    then show ?thesis by (simp add: max_loop.simps)
  next
    case True
    let ?m = "if data ! i > m then data ! i else m"
    have eq: "max_loop data m i sz = max_loop data ?m (i + 1) sz"
      using True by (subst max_loop.simps) simp
    from True "1.prems" have "data ! i \<in> set data" by simp
    with "1.IH" [OF True "1.prems"] show ?thesis
      unfolding eq by (auto split: if_splits)
  qed
qed

text \<open>The maximum that \<open>radix_sort\<close> computes for an array that has a first element.\<close>

lemma max_loop_valid:
  assumes "\<forall>a\<in>set data. 0 \<le> a \<and> a < 2 ^ 31" and "length data \<le> MAX_DATA_SIZE"
  shows "valid (max_loop data (data ! 0) 1 (length data)) data"
proof -
  let ?m = "max_loop data (data ! 0) 1 (length data)"
  from max_loop_bound [where data = data and m = "data ! 0" and i = 1 and sz = "length data"]
  have b: "data ! 0 \<le> ?m" "\<And>k. 1 \<le> k \<Longrightarrow> k < length data \<Longrightarrow> data ! k \<le> ?m"
    by simp_all
  have "a \<le> ?m" if "a \<in> set data" for a
  proof -
    from that obtain k where k: "k < length data" "a = data ! k"
      by (auto simp: in_set_conv_nth)
    show ?thesis
    proof (cases k)
      case 0
      with k b(1) show ?thesis by simp
    next
      case (Suc j)
      with k b(2) [of k] show ?thesis by simp
    qed
  qed
  with assms show ?thesis by (simp add: valid_def)
qed

lemma max_loop_in_data:
  assumes "data \<noteq> []"
  shows "max_loop data (data ! 0) 1 (length data) \<in> set data"
proof -
  from assms have "data ! 0 \<in> set data" by simp
  with max_loop_mem [where data = data and m = "data ! 0" and i = 1 and sz = "length data"]
  show ?thesis by auto
qed

lemma radix_sort_sorts_below:
  assumes "\<forall>a\<in>set data. 0 \<le> a \<and> a < 10 ^ 9" and "length data \<le> MAX_DATA_SIZE"
      and "data \<noteq> []"
  shows "radix_sort data (length data) = Inr (sort data)"
proof -
  let ?m = "max_loop data (data ! 0) 1 (length data)"
  from assms(1) have "\<forall>a\<in>set data. 0 \<le> a \<and> a < 2 ^ 31" by auto
  then have "valid ?m data" using assms(2) by (rule max_loop_valid)
  moreover from max_loop_in_data [OF assms(3)] assms(1) have "0 \<le> ?m" "?m < 10 ^ 9"
    by auto
  ultimately show ?thesis
    unfolding radix_sort_def by (rule radix_loop_sorts)
qed

lemma radix_sort_overflows:
  assumes "\<forall>a\<in>set data. 0 \<le> a \<and> a < 2 ^ 31" and "length data \<le> MAX_DATA_SIZE"
      and "b \<in> set data" and "10 ^ 9 \<le> b"
  shows "radix_sort data (length data) = Inl SignedOverflow"
proof -
  let ?m = "max_loop data (data ! 0) 1 (length data)"
  have v: "valid ?m data" using assms(1,2) by (rule max_loop_valid)
  with assms(3) have "b \<le> ?m" by (simp add: valid_def)
  with assms(4) have "10 ^ 9 \<le> ?m" by simp
  from radix_loop_overflows [OF this, of 0 9 data] v show ?thesis
    by (simp add: radix_sort_def)
qed

lemma check_results_loop_same:
  "data = expected_data \<Longrightarrow> check_results_loop data expected_data i sz"
  by (induction data expected_data i sz rule: check_results_loop.induct)
     (subst check_results_loop.simps, simp)

lemma check_results_same: "check_results data data sz"
  by (simp add: check_results_def check_results_loop_same)

text \<open>
  For every array with a first element, of at most \<open>MAX_DATA_SIZE\<close> values from 0 to
  \<open>10 ^ 9 - 1\<close>, the three routines return the ascending sorted permutation of the input, and
  the outputs of \<open>bubble_sort\<close> and \<open>radix_sort\<close> pass \<open>check_results\<close> against the output of
  \<open>quick_sort\<close>.
\<close>

lemma sorts_agree_below_overflow:
  assumes "\<forall>a\<in>set data. 0 \<le> a \<and> a < 10 ^ 9" and "length data \<le> MAX_DATA_SIZE"
      and "data \<noteq> []"
  shows "bubble_sort data (length data) = sort data \<and>
         quick_sort data (length data) = sort data \<and>
         radix_sort data (length data) = Inr (sort data) \<and>
         check_results (bubble_sort data (length data)) (quick_sort data (length data))
           (length data) \<and>
         (\<exists>out. radix_sort data (length data) = Inr out \<and>
                check_results out (quick_sort data (length data)) (length data))"
  by (simp add: bubble_sort_sorts quick_sort_sorts radix_sort_sorts_below [OF assms]
      check_results_same)

text \<open>
  Claim C10. \<open>bubble_sort\<close> and \<open>quick_sort\<close> return the ascending sorted permutation of every
  array. \<open>radix_sort\<close> does not: on the array \<open>{1000000000, 5}\<close>, nonnegative and of length 2,
  its loop runs the pass for \<open>exp = 1000000000\<close> and then multiplies \<open>exp\<close> by 10, which is
  outside the range of \<open>int\<close>. From there the behaviour of the program is undefined, so
  \<open>radix_sort\<close> has no defined output to compare with the output of \<open>quick_sort\<close>. The same
  happens for every array that holds a value of \<open>10 ^ 9\<close> or more.
\<close>

theorem radix_sort_signed_overflow:
  "radix_sort [1000000000, 5] (length [1000000000, 5 :: int]) = Inl SignedOverflow
   \<and> bubble_sort [1000000000, 5] (length [1000000000, 5 :: int]) = [5, 1000000000]
   \<and> quick_sort [1000000000, 5] (length [1000000000, 5 :: int]) = [5, 1000000000]"
  using radix_sort_overflows [of "[1000000000, 5]" 1000000000]
    bubble_sort_sorts [of "[1000000000, 5]"] quick_sort_sorts [of "[1000000000, 5]"]
  by (simp add: MAX_DATA_SIZE_def)

end
